theory Spec2Isabelle
  imports Main "HOL-Library.Char_ord" "HOL-Library.List_Lexorder"
begin

section \<open>Data-frame operations used by the ETL script\<close>

text \<open>
  A data frame is a list of rows, in row order. The operations below are the pandas calls
  that \<^verbatim>\<open>scripts/run_etl.py\<close> makes.

  \<^verbatim>\<open>DataFrame.sort_values(by=[c1, ..., cn], ascending=[...])\<close> with several columns sorts
  lexicographically and keeps rows with equal keys in their previous order, and places
  missing values last in a column. It is modelled as an insertion sort that places a row
  before the first row it is less than or equal to, processing the rows from the last to
  the first, so that equal rows keep their order. The columns and their directions form
  the comparison: \<open>then_by\<close> chains the columns, \<open>ascending\<close>, \<open>descending\<close> and
  \<open>ascending_na_last\<close> (for a column that may hold missing values) compare one column.
  Strings are compared as Python compares them, character by character.
\<close>

fun insort_by :: "('a \<Rightarrow> 'a \<Rightarrow> bool) \<Rightarrow> 'a \<Rightarrow> 'a list \<Rightarrow> 'a list" where
  "insort_by le x [] = [x]"
| "insort_by le x (y # ys) = (if le x y then x # y # ys else y # insort_by le x ys)"

definition sort_values :: "('a \<Rightarrow> 'a \<Rightarrow> bool) \<Rightarrow> 'a list \<Rightarrow> 'a list" where
  "sort_values le xs = foldr (insort_by le) xs []"

definition ascending :: "('a \<Rightarrow> 'k::linorder) \<Rightarrow> 'a \<Rightarrow> 'a \<Rightarrow> bool" where
  "ascending f x y = (f x \<le> f y)"

definition descending :: "('a \<Rightarrow> 'k::linorder) \<Rightarrow> 'a \<Rightarrow> 'a \<Rightarrow> bool" where
  "descending f x y = (f y \<le> f x)"

definition ascending_na_last :: "('a \<Rightarrow> 'k::linorder option) \<Rightarrow> 'a \<Rightarrow> 'a \<Rightarrow> bool" where
  "ascending_na_last f x y =
     (case f y of None \<Rightarrow> True
      | Some b \<Rightarrow> (case f x of None \<Rightarrow> False | Some a \<Rightarrow> a \<le> b))"

definition then_by :: "('a \<Rightarrow> 'a \<Rightarrow> bool) \<Rightarrow> ('a \<Rightarrow> 'a \<Rightarrow> bool) \<Rightarrow> 'a \<Rightarrow> 'a \<Rightarrow> bool" where
  "then_by le1 le2 x y = (if le1 x y \<and> le1 y x then le2 x y else le1 x y)"

text \<open>
  \<^verbatim>\<open>DataFrame.drop_duplicates(subset=key, keep="first")\<close> walks the rows in order and keeps
  a row when its key has not been seen before. Two missing values count as equal.
\<close>

fun drop_duplicates_seen :: "('a \<Rightarrow> 'k) \<Rightarrow> 'k list \<Rightarrow> 'a list \<Rightarrow> 'a list" where
  "drop_duplicates_seen key seen [] = []"
| "drop_duplicates_seen key seen (x # xs) =
     (if key x \<in> set seen then drop_duplicates_seen key seen xs
      else x # drop_duplicates_seen key (key x # seen) xs)"

definition drop_duplicates :: "('a \<Rightarrow> 'k) \<Rightarrow> 'a list \<Rightarrow> 'a list" where
  "drop_duplicates key xs = drop_duplicates_seen key [] xs"

text \<open>\<^verbatim>\<open>Series.fillna(d)\<close> on one value.\<close>

definition fillna :: "'a \<Rightarrow> 'a option \<Rightarrow> 'a" where
  "fillna d v = (case v of None \<Rightarrow> d | Some x \<Rightarrow> x)"

text \<open>
  Integer columns are \<^verbatim>\<open>int64\<close>: a cell holds an integer from \<open>- 2 ^ 63\<close> to
  \<open>2 ^ 63 - 1\<close>, and sums and differences of cells wrap around. A column with a missing
  value is \<^verbatim>\<open>float64\<close>: an integer is stored there as the nearest number with 53
  significant binary digits, the one with an even last digit when two are equally near,
  so every integer up to \<open>2 ^ 53\<close> in absolute value is stored exactly.
  Above \<open>2 ^ 53\<close> the stored numbers are \<open>2\<close> apart up to \<open>2 ^ 54\<close>, \<open>4\<close> apart up
  to \<open>2 ^ 55\<close>, and so on up to \<open>2 ^ 63\<close>, the largest absolute value of a cell.
  \<^verbatim>\<open>astype(int)\<close> takes such a number back to \<^verbatim>\<open>int64\<close>; \<open>2 ^ 63\<close>, the only
  value a rounded \<^verbatim>\<open>int64\<close> can take outside the range, gives \<open>- 2 ^ 63\<close>, as the
  conversion instruction of x86-64 does.
\<close>

definition wrap_int64 :: "int \<Rightarrow> int" where
  "wrap_int64 n = (n + 2 ^ 63) mod 2 ^ 64 - 2 ^ 63"

definition float64_spacing :: "int \<Rightarrow> int" where
  "float64_spacing a =
     (if a < 2 ^ 54 then 2 else if a < 2 ^ 55 then 2 ^ 2 else if a < 2 ^ 56 then 2 ^ 3
      else if a < 2 ^ 57 then 2 ^ 4 else if a < 2 ^ 58 then 2 ^ 5 else if a < 2 ^ 59 then 2 ^ 6
      else if a < 2 ^ 60 then 2 ^ 7 else if a < 2 ^ 61 then 2 ^ 8 else if a < 2 ^ 62 then 2 ^ 9
      else if a < 2 ^ 63 then 2 ^ 10 else 2 ^ 11)"

definition round_half_even :: "int \<Rightarrow> int \<Rightarrow> int" where
  "round_half_even q a =
     (if 2 * (a mod q) < q then (a div q) * q
      else if q < 2 * (a mod q) then (a div q) * q + q
      else if even (a div q) then (a div q) * q
      else (a div q) * q + q)"

definition float64_of_int :: "int \<Rightarrow> int" where
  "float64_of_int n =
     (if \<bar>n\<bar> \<le> 2 ^ 53 then n
      else sgn n * round_half_even (float64_spacing \<bar>n\<bar>) \<bar>n\<bar>)"

definition astype_int :: "int \<Rightarrow> int" where
  "astype_int v = wrap_int64 v"

text \<open>
  \<^verbatim>\<open>groupby(keys)[col].cumsum()\<close> gives every row the sum of the column over the rows of
  its group up to and including itself, in \<^verbatim>\<open>int64\<close>; \<^verbatim>\<open>groupby(keys)[col].shift(1)\<close>
  gives every row the value of the previous row of its group, and a missing value to the
  first row of a group, so that its result is a \<^verbatim>\<open>float64\<close> column. Both run over the
  rows in order with one running value per group.
\<close>

fun group_cumsum_from :: "('k \<Rightarrow> int) \<Rightarrow> ('k \<times> int) list \<Rightarrow> int list" where
  "group_cumsum_from acc [] = []"
| "group_cumsum_from acc ((k, v) # rows) =
     wrap_int64 (acc k + v) # group_cumsum_from (acc(k := wrap_int64 (acc k + v))) rows"

definition group_cumsum :: "'k list \<Rightarrow> int list \<Rightarrow> int list" where
  "group_cumsum keys vals = group_cumsum_from (\<lambda>k. 0) (zip keys vals)"

fun group_shift_from :: "('k \<rightharpoonup> int) \<Rightarrow> ('k \<times> int) list \<Rightarrow> int option list" where
  "group_shift_from prev [] = []"
| "group_shift_from prev ((k, v) # rows) =
     prev k # group_shift_from (prev(k \<mapsto> float64_of_int v)) rows"

definition group_shift :: "'k list \<Rightarrow> int list \<Rightarrow> int option list" where
  "group_shift keys vals = group_shift_from Map.empty (zip keys vals)"

text \<open>
  \<^verbatim>\<open>groupby(keys, sort=False)\<close>: the groups in the order in which their keys first appear,
  each with its rows in row order.
\<close>

definition groupby :: "('a \<Rightarrow> 'k) \<Rightarrow> 'a list \<Rightarrow> ('k \<times> 'a list) list" where
  "groupby key df =
     map (\<lambda>k. (k, filter (\<lambda>r. key r = k) df)) (drop_duplicates (\<lambda>k. k) (map key df))"

text \<open>
  The aggregation \<^verbatim>\<open>"first"\<close> of a group skips missing values.
\<close>

fun agg_first :: "'a option list \<Rightarrow> 'a option" where
  "agg_first [] = None"
| "agg_first (None # vs) = agg_first vs"
| "agg_first (Some v # vs) = Some v"

text \<open>
  Column bookkeeping: \<^verbatim>\<open>df[c] = ...\<close> overwrites the column \<open>c\<close> in place or appends it
  as the last column; \<^verbatim>\<open>df.drop(columns=names, errors="ignore")\<close> removes the named
  columns that exist.
\<close>

definition assign_column :: "string \<Rightarrow> string list \<Rightarrow> string list" where
  "assign_column c cols = (if c \<in> set cols then cols else cols @ [c])"

definition drop_columns :: "string list \<Rightarrow> string list \<Rightarrow> string list" where
  "drop_columns names cols = filter (\<lambda>c. c \<notin> set names) cols"

text \<open>
  A comparison that sorts: any two rows are comparable, and the comparison is transitive.
\<close>

definition total_preorder :: "('a \<Rightarrow> 'a \<Rightarrow> bool) \<Rightarrow> bool" where
  "total_preorder le \<longleftrightarrow> (\<forall>x y. le x y \<or> le y x) \<and> (\<forall>x y z. le x y \<longrightarrow> le y z \<longrightarrow> le x z)"

section \<open>Transform: games\<close>

text \<open>
  A raw game row: the game identifier, the date of the folder the row was read from (a
  string, the folder's name), and the schedule columns, which the transform never reads.
  \<^verbatim>\<open>process_games\<close> sorts by \<^verbatim>\<open>gamePk\<close> ascending and \<^verbatim>\<open>source_folder_date\<close>
  descending, keeps the first row of every \<^verbatim>\<open>gamePk\<close>, and drops the folder date.
\<close>

record 'f game_raw =
  gr_gamePk :: int
  gr_source_folder_date :: string
  gr_fields :: 'f

record 'f game =
  g_gamePk :: int
  g_fields :: 'f

definition games_order :: "'f game_raw \<Rightarrow> 'f game_raw \<Rightarrow> bool" where
  "games_order = then_by (ascending gr_gamePk) (descending gr_source_folder_date)"

definition dedup_games :: "'f game_raw list \<Rightarrow> 'f game_raw list" where
  "dedup_games df = drop_duplicates gr_gamePk (sort_values games_order df)"

definition drop_game_source_folder_date :: "'f game_raw \<Rightarrow> 'f game" where
  "drop_game_source_folder_date r = \<lparr>g_gamePk = gr_gamePk r, g_fields = gr_fields r\<rparr>"

definition process_games :: "'f game_raw list \<Rightarrow> 'f game list" where
  "process_games df_games_raw = map drop_game_source_folder_date (dedup_games df_games_raw)"

section \<open>Transform: linescores\<close>

text \<open>
  A raw linescore row. Only \<^verbatim>\<open>runs\<close> may be missing. \<open>linescore_row\<close> is the row after
  \<^verbatim>\<open>df["runs"] = df["runs"].fillna(0).astype(int)\<close>, and \<open>linescore\<close> the row that
  \<^verbatim>\<open>process_linescores\<close> returns.
\<close>

record linescore_raw =
  lr_gamePk :: int
  lr_inning :: int
  lr_half :: string
  lr_battingteamid :: int
  lr_runs :: "int option"
  lr_source_folder_date :: string

record linescore_row =
  ln_gamePk :: int
  ln_inning :: int
  ln_half :: string
  ln_battingteamid :: int
  ln_runs :: int
  ln_source_folder_date :: string

record linescore =
  ls_gamePk :: int
  ls_inning :: int
  ls_half :: string
  ls_battingteamid :: int
  ls_runs :: int
  ls_battingteam_score :: int
  ls_battingteam_score_diff :: int

definition lr_key :: "linescore_raw \<Rightarrow> int \<times> int \<times> string" where
  "lr_key r = (lr_gamePk r, lr_inning r, lr_half r)"

definition ln_key :: "linescore_row \<Rightarrow> int \<times> int \<times> string" where
  "ln_key r = (ln_gamePk r, ln_inning r, ln_half r)"

definition linescores_dedup_order :: "linescore_raw \<Rightarrow> linescore_raw \<Rightarrow> bool" where
  "linescores_dedup_order =
     then_by (ascending lr_gamePk) (then_by (ascending lr_inning)
       (then_by (ascending lr_half) (descending lr_source_folder_date)))"

definition dedup_linescores :: "linescore_raw list \<Rightarrow> linescore_raw list" where
  "dedup_linescores df = drop_duplicates lr_key (sort_values linescores_dedup_order df)"

definition normalize_runs :: "linescore_raw \<Rightarrow> linescore_row" where
  "normalize_runs r =
     \<lparr>ln_gamePk = lr_gamePk r, ln_inning = lr_inning r, ln_half = lr_half r,
      ln_battingteamid = lr_battingteamid r, ln_runs = fillna 0 (lr_runs r),
      ln_source_folder_date = lr_source_folder_date r\<rparr>"

definition chronological_order :: "linescore_row \<Rightarrow> linescore_row \<Rightarrow> bool" where
  "chronological_order =
     then_by (ascending ln_gamePk) (then_by (ascending ln_inning) (ascending ln_half))"

definition batting_key :: "linescore_row \<Rightarrow> int \<times> int" where
  "batting_key r = (ln_gamePk r, ln_battingteamid r)"

definition cum_runs_batting :: "linescore_row list \<Rightarrow> int list" where
  "cum_runs_batting df = group_cumsum (map batting_key df) (map ln_runs df)"

definition cum_runs_total :: "linescore_row list \<Rightarrow> int list" where
  "cum_runs_total df = group_cumsum (map ln_gamePk df) (map ln_runs df)"

definition battingteam_score :: "linescore_row list \<Rightarrow> int list" where
  "battingteam_score df =
     map (\<lambda>v. astype_int (fillna 0 v))
       (group_shift (map batting_key df) (cum_runs_batting df))"

definition total_score :: "linescore_row list \<Rightarrow> int list" where
  "total_score df =
     map (\<lambda>v. astype_int (fillna 0 v)) (group_shift (map ln_gamePk df) (cum_runs_total df))"

definition linescore_out :: "linescore_row \<Rightarrow> int \<Rightarrow> int \<Rightarrow> linescore" where
  "linescore_out r bs ts =
     \<lparr>ls_gamePk = ln_gamePk r, ls_inning = ln_inning r, ls_half = ln_half r,
      ls_battingteamid = ln_battingteamid r, ls_runs = ln_runs r,
      ls_battingteam_score = bs,
      ls_battingteam_score_diff = wrap_int64 (bs - wrap_int64 (ts - bs))\<rparr>"

definition add_scores :: "linescore_row list \<Rightarrow> linescore list" where
  "add_scores df =
     map (\<lambda>(r, bs, ts). linescore_out r bs ts)
       (zip df (zip (battingteam_score df) (total_score df)))"

definition linescores_chronological :: "linescore_raw list \<Rightarrow> linescore_row list" where
  "linescores_chronological df_linescores_raw =
     sort_values chronological_order (map normalize_runs (dedup_linescores df_linescores_raw))"

definition process_linescores :: "linescore_raw list \<Rightarrow> linescore list" where
  "process_linescores df_linescores_raw = add_scores (linescores_chronological df_linescores_raw)"

text \<open>
  The columns of the frame that \<^verbatim>\<open>process_linescores\<close> returns, from the columns of the
  frame it is given: six assignments, then the drop.
\<close>

definition process_linescores_columns :: "string list \<Rightarrow> string list" where
  "process_linescores_columns cols =
     drop_columns [''cum_runs_batting'', ''cum_runs_total'', ''total_score'', ''source_folder_date'']
       (assign_column ''battingteam_score_diff''
         (assign_column ''total_score''
           (assign_column ''battingteam_score''
             (assign_column ''cum_runs_total''
               (assign_column ''cum_runs_batting''
                 (assign_column ''runs'' cols))))))"

definition linescore_raw_columns :: "string list" where
  "linescore_raw_columns =
     [''gamePk'', ''inning'', ''half'', ''battingteamid'', ''runs'', ''source_folder_date'']"

section \<open>Transform: runner play\<close>

text \<open>
  A raw runner row is one movement segment. The bases, the names and the labels may be
  missing. \<open>segment\<close> is the row after the renaming (\<^verbatim>\<open>originBase\<close> to
  \<^verbatim>\<open>startbase\<close>, \<^verbatim>\<open>end\<close> to \<^verbatim>\<open>endbase\<close>, \<^verbatim>\<open>isOut\<close> to \<^verbatim>\<open>is_out\<close>), the lowercasing of
  the column names, the filling of the missing bases with \<^verbatim>\<open>"B"\<close> and the replacement of
  the home-plate labels.
\<close>

record runner_raw =
  rr_gamePk :: int
  rr_atBatIndex :: int
  rr_playIndex :: int
  rr_runnerid :: int
  rr_runnerfullname :: "string option"
  rr_originBase :: "string option"
  rr_start :: "string option"
  rr_end :: "string option"
  rr_outbase :: "string option"
  rr_isOut :: bool
  rr_eventtype :: "string option"
  rr_movementreason :: "string option"
  rr_playid :: "string option"
  rr_source_folder_date :: string

record segment =
  sg_gamepk :: int
  sg_atbatindex :: int
  sg_playindex :: int
  sg_runnerid :: int
  sg_runnerfullname :: "string option"
  sg_startbase :: string
  sg_start :: string
  sg_endbase :: string
  sg_outbase :: "string option"
  sg_is_out :: bool
  sg_eventtype :: "string option"
  sg_movementreason :: "string option"
  sg_playid :: "string option"
  sg_source_folder_date :: string

record runner_agg =
  ra_gamepk :: int
  ra_atbatindex :: int
  ra_playindex :: int
  ra_runnerid :: int
  ra_startbase :: string
  ra_endbase :: string
  ra_runnerfullname :: "string option"
  ra_reachedbase :: string
  ra_eventtype :: "string option"
  ra_movementreason :: "string option"
  ra_is_out :: bool
  ra_playid :: "string option"

record runner_play =
  rp_gamepk :: int
  rp_atbatindex :: int
  rp_playindex :: int
  rp_runnerid :: int
  rp_startbase :: string
  rp_endbase :: string
  rp_runnerfullname :: "string option"
  rp_reachedbase :: string
  rp_eventtype :: "string option"
  rp_movementreason :: "string option"
  rp_is_out :: bool
  rp_playid :: "string option"
  rp_is_risp :: bool
  rp_is_firsttothird :: bool
  rp_is_secondtohome :: bool

definition BASE_MAP_REPLACE :: "string \<rightharpoonup> string" where
  "BASE_MAP_REPLACE = [''score'' \<mapsto> ''HM'', ''4B'' \<mapsto> ''HM'']"

definition replace_value :: "('a \<rightharpoonup> 'a) \<Rightarrow> 'a \<Rightarrow> 'a" where
  "replace_value m v = (case m v of None \<Rightarrow> v | Some w \<Rightarrow> w)"

fun join :: "string \<Rightarrow> string list \<Rightarrow> string" where
  "join sep [] = []"
| "join sep [v] = v"
| "join sep (v # w # vs) = v @ sep @ join sep (w # vs)"

definition uniq_join_keep_dups :: "string option list \<Rightarrow> string option" where
  "uniq_join_keep_dups s =
     (let vals = filter (\<lambda>v. v \<noteq> []) (List.map_filter (\<lambda>v. v) s)
      in if vals = [] then None else Some (join '','' (sort (remdups vals))))"

definition calculate_reached_base :: "segment list \<Rightarrow> string" where
  "calculate_reached_base grp =
     (let safe_segments = filter (\<lambda>s. sg_is_out s = False) grp
      in if safe_segments \<noteq> [] then sg_endbase (last safe_segments)
         else sg_startbase (hd grp))"

definition runner_key ::
  "runner_raw \<Rightarrow> int \<times> int \<times> int \<times> int \<times> string option \<times> string option" where
  "runner_key r =
     (rr_gamePk r, rr_atBatIndex r, rr_playIndex r, rr_runnerid r, rr_start r, rr_end r)"

definition runners_dedup_order :: "runner_raw \<Rightarrow> runner_raw \<Rightarrow> bool" where
  "runners_dedup_order =
     then_by (ascending rr_gamePk) (then_by (ascending rr_atBatIndex)
       (then_by (ascending rr_playIndex) (then_by (ascending rr_runnerid)
         (then_by (ascending_na_last rr_start) (then_by (ascending_na_last rr_end)
           (descending rr_source_folder_date))))))"

definition dedup_runners :: "runner_raw list \<Rightarrow> runner_raw list" where
  "dedup_runners df = drop_duplicates runner_key (sort_values runners_dedup_order df)"

definition normalize_segment :: "runner_raw \<Rightarrow> segment" where
  "normalize_segment r =
     \<lparr>sg_gamepk = rr_gamePk r, sg_atbatindex = rr_atBatIndex r, sg_playindex = rr_playIndex r,
      sg_runnerid = rr_runnerid r, sg_runnerfullname = rr_runnerfullname r,
      sg_startbase = fillna ''B'' (rr_originBase r),
      sg_start = fillna ''B'' (rr_start r),
      sg_endbase = replace_value BASE_MAP_REPLACE (fillna ''B'' (rr_end r)),
      sg_outbase = map_option (replace_value BASE_MAP_REPLACE) (rr_outbase r),
      sg_is_out = rr_isOut r, sg_eventtype = rr_eventtype r,
      sg_movementreason = rr_movementreason r, sg_playid = rr_playid r,
      sg_source_folder_date = rr_source_folder_date r\<rparr>"

definition play_order :: "segment \<Rightarrow> segment \<Rightarrow> bool" where
  "play_order =
     then_by (ascending sg_gamepk) (then_by (ascending sg_atbatindex) (ascending sg_playindex))"

definition play_key :: "segment \<Rightarrow> int \<times> int \<times> int \<times> int" where
  "play_key s = (sg_gamepk s, sg_atbatindex s, sg_playindex s, sg_runnerid s)"

definition runner_segments :: "runner_raw list \<Rightarrow> segment list" where
  "runner_segments df_runners_raw =
     sort_values play_order (map normalize_segment (dedup_runners df_runners_raw))"

text \<open>
  The aggregation of one group. \<^verbatim>\<open>startbase\<close> and \<^verbatim>\<open>endbase\<close> hold no missing value
  after the filling, so their \<^verbatim>\<open>"first"\<close> and \<^verbatim>\<open>"last"\<close> are the first and the last row
  of the group; a group of \<^verbatim>\<open>groupby\<close> is never empty.
\<close>

definition aggregate :: "(int \<times> int \<times> int \<times> int) \<times> segment list \<Rightarrow> runner_agg" where
  "aggregate kg =
     (case kg of ((gamepk, atbatindex, playindex, runnerid), grp) \<Rightarrow>
       \<lparr>ra_gamepk = gamepk, ra_atbatindex = atbatindex, ra_playindex = playindex,
        ra_runnerid = runnerid,
        ra_startbase = sg_startbase (hd grp),
        ra_endbase = sg_endbase (last grp),
        ra_runnerfullname = agg_first (map sg_runnerfullname grp),
        ra_reachedbase = calculate_reached_base grp,
        ra_eventtype = uniq_join_keep_dups (map sg_eventtype grp),
        ra_movementreason = uniq_join_keep_dups (map sg_movementreason grp),
        ra_is_out = list_ex sg_is_out grp,
        ra_playid = agg_first (map sg_playid grp)\<rparr>)"

text \<open>
  \<^verbatim>\<open>Series.str.contains(pat, na=False)\<close> for a pattern without regular-expression
  metacharacters: the pattern occurs in the string; a missing value gives \<open>False\<close>.
\<close>

fun is_prefix :: "'a list \<Rightarrow> 'a list \<Rightarrow> bool" where
  "is_prefix [] ys = True"
| "is_prefix (x # xs) [] = False"
| "is_prefix (x # xs) (y # ys) = (x = y \<and> is_prefix xs ys)"

fun occurs_in :: "'a list \<Rightarrow> 'a list \<Rightarrow> bool" where
  "occurs_in pat [] = (pat = [])"
| "occurs_in pat (c # cs) = (is_prefix pat (c # cs) \<or> occurs_in pat cs)"

definition str_contains :: "string \<Rightarrow> string option \<Rightarrow> bool" where
  "str_contains pat v = (case v of None \<Rightarrow> False | Some s \<Rightarrow> occurs_in pat s)"

definition derive :: "runner_agg \<Rightarrow> runner_play" where
  "derive out =
     \<lparr>rp_gamepk = ra_gamepk out, rp_atbatindex = ra_atbatindex out,
      rp_playindex = ra_playindex out, rp_runnerid = ra_runnerid out,
      rp_startbase = ra_startbase out, rp_endbase = ra_endbase out,
      rp_runnerfullname = ra_runnerfullname out, rp_reachedbase = ra_reachedbase out,
      rp_eventtype = ra_eventtype out, rp_movementreason = ra_movementreason out,
      rp_is_out = ra_is_out out, rp_playid = ra_playid out,
      rp_is_risp = (ra_startbase out \<in> set [''2B'', ''3B'']),
      rp_is_firsttothird =
        (ra_startbase out = ''1B'' \<and> ra_reachedbase out = ''3B''
         \<and> \<not> str_contains ''home_run'' (ra_eventtype out) \<and> ra_is_out out = False),
      rp_is_secondtohome =
        (ra_startbase out = ''2B'' \<and> ra_reachedbase out = ''HM''
         \<and> \<not> str_contains ''home_run'' (ra_eventtype out) \<and> ra_is_out out = False)\<rparr>"

definition process_runner_play :: "runner_raw list \<Rightarrow> runner_play list" where
  "process_runner_play df_runners_raw =
     map (\<lambda>kg. derive (aggregate kg)) (groupby play_key (runner_segments df_runners_raw))"

definition rp_key :: "runner_play \<Rightarrow> int \<times> int \<times> int \<times> int" where
  "rp_key r = (rp_gamepk r, rp_atbatindex r, rp_playindex r, rp_runnerid r)"

section \<open>Concrete inputs\<close>

definition scenario_row :: "int \<Rightarrow> string \<Rightarrow> int \<Rightarrow> int \<Rightarrow> linescore_raw" where
  "scenario_row i h t r =
     \<lparr>lr_gamePk = 1, lr_inning = i, lr_half = h, lr_battingteamid = t, lr_runs = Some r,
      lr_source_folder_date = ''2025-04-01''\<rparr>"

definition scenario_linescores :: "linescore_raw list" where
  "scenario_linescores =
     [scenario_row 1 ''TOP'' 101 2, scenario_row 1 ''BOT'' 102 0, scenario_row 2 ''TOP'' 101 1]"

definition game_row :: "int \<Rightarrow> string \<Rightarrow> string \<Rightarrow> string game_raw" where
  "game_row pk d f = \<lparr>gr_gamePk = pk, gr_source_folder_date = d, gr_fields = f\<rparr>"

definition runner_row ::
  "string option \<Rightarrow> string option \<Rightarrow> string option \<Rightarrow> bool \<Rightarrow> string option \<Rightarrow> runner_raw" where
  "runner_row origin st en out ev =
     \<lparr>rr_gamePk = 1, rr_atBatIndex = 0, rr_playIndex = 0, rr_runnerid = 7,
      rr_runnerfullname = Some ''Runner'', rr_originBase = origin, rr_start = st, rr_end = en,
      rr_outbase = None, rr_isOut = out, rr_eventtype = ev, rr_movementreason = None,
      rr_playid = None, rr_source_folder_date = ''2025-04-01''\<rparr>"

definition example_games :: "string game_raw list" where
  "example_games =
     [game_row 2 ''2025-04-01'' ''first extract'', game_row 1 ''2025-04-01'' ''other game'',
      game_row 2 ''2025-04-02'' ''second extract'', game_row 2 ''2025-04-02'' ''repeated'']"

definition example_linescores :: "linescore_raw list" where
  "example_linescores =
     [\<lparr>lr_gamePk = 1, lr_inning = 1, lr_half = ''TOP'', lr_battingteamid = 101,
        lr_runs = None, lr_source_folder_date = ''2025-04-01''\<rparr>,
      \<lparr>lr_gamePk = 1, lr_inning = 1, lr_half = ''TOP'', lr_battingteamid = 101,
        lr_runs = Some 3, lr_source_folder_date = ''2025-04-02''\<rparr>]"

definition first_to_third_play :: "runner_raw list" where
  "first_to_third_play =
     [runner_row (Some ''1B'') (Some ''1B'') (Some ''2B'') False None,
      runner_row (Some ''1B'') (Some ''2B'') (Some ''3B'') False None]"

definition second_to_home_play :: "runner_raw list" where
  "second_to_home_play =
     [runner_row (Some ''2B'') (Some ''2B'') (Some ''3B'') False None,
      runner_row (Some ''2B'') (Some ''3B'') (Some ''score'') False (Some [])]"

definition batter_advance_play :: "runner_raw list" where
  "batter_advance_play =
     [runner_row None None (Some ''1B'') False (Some ''single''),
      runner_row None (Some ''1B'') (Some ''2B'') False (Some ''single'')]"

definition caught_play :: "runner_raw list" where
  "caught_play =
     [runner_row (Some ''1B'') (Some ''1B'') (Some ''2B'') True (Some ''caught_stealing_2b'')]"

definition large_runs_linescores :: "linescore_raw list" where
  "large_runs_linescores =
     [scenario_row 1 ''TOP'' 101 9007199254740993, scenario_row 2 ''TOP'' 101 0]"

definition overflowing_linescores :: "linescore_raw list" where
  "overflowing_linescores =
     [scenario_row 1 ''TOP'' 101 4611686018427387904,
      scenario_row 2 ''TOP'' 101 4611686018427387904, scenario_row 3 ''TOP'' 101 0]"

lemma total_preorder_ascending: "total_preorder (ascending f)"
  by (auto simp: total_preorder_def ascending_def)

lemma total_preorder_descending: "total_preorder (descending f)"
  by (auto simp: total_preorder_def descending_def)

lemma total_preorder_ascending_na_last: "total_preorder (ascending_na_last f)"
  unfolding total_preorder_def ascending_na_last_def
  by (auto split: option.splits)

lemma total_preorder_then_by:
  assumes "total_preorder le1" and "total_preorder le2"
  shows "total_preorder (then_by le1 le2)"
proof -
  have t1: "\<And>x y. le1 x y \<or> le1 y x" and r1: "\<And>x y z. le1 x y \<Longrightarrow> le1 y z \<Longrightarrow> le1 x z"
    using assms(1) unfolding total_preorder_def by blast+
  have t2: "\<And>x y. le2 x y \<or> le2 y x" and r2: "\<And>x y z. le2 x y \<Longrightarrow> le2 y z \<Longrightarrow> le2 x z"
    using assms(2) unfolding total_preorder_def by blast+
  have tot: "\<And>x y. then_by le1 le2 x y \<or> then_by le1 le2 y x"
    unfolding then_by_def using t1 t2 by metis
  have trans: "\<And>x y z. then_by le1 le2 x y \<Longrightarrow> then_by le1 le2 y z \<Longrightarrow> then_by le1 le2 x z"
    unfolding then_by_def using r1 r2 by (metis (full_types))
  show ?thesis unfolding total_preorder_def using tot trans by blast
qed

lemma total_preorder_refl: "total_preorder le \<Longrightarrow> le x x"
  unfolding total_preorder_def by blast

lemma set_insort_by [simp]: "set (insort_by le x ys) = insert x (set ys)"
  by (induction ys) auto

lemma length_insort_by [simp]: "length (insort_by le x ys) = Suc (length ys)"
  by (induction ys) auto

lemma sort_values_Nil [simp]: "sort_values le [] = []"
  by (simp add: sort_values_def)

lemma sort_values_Cons: "sort_values le (x # xs) = insort_by le x (sort_values le xs)"
  by (simp add: sort_values_def)

lemma set_sort_values [simp]: "set (sort_values le xs) = set xs"
  by (induction xs) (auto simp: sort_values_Cons)

lemma length_sort_values [simp]: "length (sort_values le xs) = length xs"
  by (induction xs) (auto simp: sort_values_Cons)

lemma sorted_wrt_insort_by:
  assumes tp: "total_preorder le" and "sorted_wrt le ys"
  shows "sorted_wrt le (insort_by le x ys)"
  using assms(2)
proof (induction ys)
  case Nil
  then show ?case by simp
next
  case (Cons y ys)
  have tot: "\<And>a b. le a b \<or> le b a" and tr: "\<And>a b c. le a b \<Longrightarrow> le b c \<Longrightarrow> le a c"
    using tp unfolding total_preorder_def by blast+
  show ?case
  proof (cases "le x y")
    case True
    then have "\<forall>z\<in>set ys. le x z" using Cons.prems tr by auto
    with True Cons.prems show ?thesis by simp
  next
    case False
    then have "le y x" using tot by blast
    with False Cons show ?thesis by auto
  qed
qed

lemma sorted_wrt_sort_values:
  "total_preorder le \<Longrightarrow> sorted_wrt le (sort_values le xs)"
  by (induction xs) (simp_all add: sort_values_Cons sorted_wrt_insort_by)

lemma insort_by_sorted_Cons:
  "\<forall>y\<in>set ys. le x y \<Longrightarrow> insort_by le x ys = x # ys"
  by (cases ys) auto

lemma sort_values_sorted_id: "sorted_wrt le xs \<Longrightarrow> sort_values le xs = xs"
  by (induction xs) (simp_all add: sort_values_Cons insort_by_sorted_Cons)

lemma filter_insort_by_stable:
  assumes "\<And>a b. P a \<Longrightarrow> P b \<Longrightarrow> le a b"
  shows "filter P (insort_by le x ys) = filter P (x # ys)"
  using assms by (induction ys) auto

lemma filter_sort_values_stable:
  assumes "\<And>a b. P a \<Longrightarrow> P b \<Longrightarrow> le a b"
  shows "filter P (sort_values le xs) = filter P xs"
proof (induction xs)
  case Nil
  then show ?case by simp
next
  case (Cons x xs)
  have "filter P (sort_values le (x # xs)) = filter P (x # sort_values le xs)"
    unfolding sort_values_Cons by (rule filter_insort_by_stable) (rule assms)
  with Cons show ?case by simp
qed

lemma filter_drop_duplicates_seen:
  "filter (\<lambda>y. key y = k) (drop_duplicates_seen key seen xs) =
     (if k \<in> set seen then [] else take 1 (filter (\<lambda>y. key y = k) xs))"
proof (induction xs arbitrary: seen)
  case Nil
  then show ?case by simp
next
  case (Cons x xs)
  show ?case
  proof (cases "key x \<in> set seen")
    case True
    then show ?thesis using Cons.IH [of seen] by auto
  next
    case False
    then show ?thesis using Cons.IH [of "key x # seen"] by auto
  qed
qed

lemma filter_drop_duplicates:
  "filter (\<lambda>y. key y = k) (drop_duplicates key xs) = take 1 (filter (\<lambda>y. key y = k) xs)"
  by (simp add: drop_duplicates_def filter_drop_duplicates_seen)

lemma set_drop_duplicates_seen: "set (drop_duplicates_seen key seen xs) \<subseteq> set xs"
  by (induction xs arbitrary: seen) auto

lemma set_drop_duplicates: "set (drop_duplicates key xs) \<subseteq> set xs"
  by (simp add: drop_duplicates_def set_drop_duplicates_seen)

lemma keys_drop_duplicates_seen:
  "key ` set (drop_duplicates_seen key seen xs) = key ` set xs - set seen"
  by (induction xs arbitrary: seen) auto

lemma keys_drop_duplicates: "key ` set (drop_duplicates key xs) = key ` set xs"
  by (simp add: drop_duplicates_def keys_drop_duplicates_seen)

lemma distinct_drop_duplicates_seen:
  "distinct (map key (drop_duplicates_seen key seen xs))"
proof (induction xs arbitrary: seen)
  case Nil
  then show ?case by simp
next
  case (Cons x xs)
  have "key x \<notin> key ` set (drop_duplicates_seen key (key x # seen) xs)"
    by (simp add: keys_drop_duplicates_seen)
  with Cons show ?case by simp
qed

lemma distinct_drop_duplicates: "distinct (map key (drop_duplicates key xs))"
  by (simp add: drop_duplicates_def distinct_drop_duplicates_seen)

lemma sorted_wrt_drop_duplicates_seen:
  "sorted_wrt le xs \<Longrightarrow> sorted_wrt le (drop_duplicates_seen key seen xs)"
proof (induction xs arbitrary: seen)
  case Nil
  then show ?case by simp
next
  case (Cons x xs)
  then show ?case using set_drop_duplicates_seen [of key _ xs] by (auto simp: subset_iff)
qed

lemma sorted_wrt_drop_duplicates:
  "sorted_wrt le xs \<Longrightarrow> sorted_wrt le (drop_duplicates key xs)"
  by (simp add: drop_duplicates_def sorted_wrt_drop_duplicates_seen)

lemma drop_duplicates_seen_id:
  "distinct (map key xs) \<Longrightarrow> key ` set xs \<inter> set seen = {} \<Longrightarrow>
   drop_duplicates_seen key seen xs = xs"
  by (induction xs arbitrary: seen) auto

lemma drop_duplicates_id: "distinct (map key xs) \<Longrightarrow> drop_duplicates key xs = xs"
  by (simp add: drop_duplicates_def drop_duplicates_seen_id)

lemma dedup_survivor:
  assumes tp: "total_preorder le" and k: "k \<in> key ` set xs"
  shows "\<exists>r. filter (\<lambda>y. key y = k) (drop_duplicates key (sort_values le xs)) = [r]
            \<and> r \<in> set xs \<and> key r = k \<and> (\<forall>x\<in>set xs. key x = k \<longrightarrow> le r x)
            \<and> (\<exists>rest. filter (\<lambda>y. key y = k) (sort_values le xs) = r # rest)"
proof -
  let ?s = "sort_values le xs"
  let ?f = "filter (\<lambda>y. key y = k) ?s"
  from k have "?f \<noteq> []" by (auto simp: filter_empty_conv)
  then obtain r rest where f: "?f = r # rest" by (cases ?f) auto
  have rin: "r \<in> set ?f" using f by simp
  then have r: "r \<in> set xs" "key r = k" by auto
  have "sorted_wrt le ?f" using sorted_wrt_sort_values [OF tp] by (rule sorted_wrt_filter)
  then have "\<forall>x\<in>set rest. le r x" using f by simp
  moreover have "le r r" using tp by (rule total_preorder_refl)
  ultimately have "\<forall>x\<in>set ?f. le r x" using f by auto
  then have min: "\<forall>x\<in>set xs. key x = k \<longrightarrow> le r x" by auto
  have "filter (\<lambda>y. key y = k) (drop_duplicates key ?s) = [r]"
    by (simp add: filter_drop_duplicates f)
  with r min f show ?thesis by blast
qed

lemma dedup_first_among_equals:
  assumes f: "filter (\<lambda>y. key y = k) (sort_values le xs) = r # rest"
    and P: "P r" and Pk: "\<And>a. P a \<Longrightarrow> key a = k"
    and eq: "\<And>a b. P a \<Longrightarrow> P b \<Longrightarrow> le a b"
  shows "find P xs = Some r"
proof -
  have "filter P (sort_values le xs) = filter P (filter (\<lambda>y. key y = k) (sort_values le xs))"
    using Pk by (auto intro: filter_cong)
  also have "\<dots> = r # filter P rest" using f P by simp
  finally have "filter P xs = r # filter P rest"
    using filter_sort_values_stable [of P le xs] eq by simp
  then show ?thesis
    by (induction xs) (auto split: if_splits)
qed

lemma dedup_idem:
  assumes tp: "total_preorder le"
  shows "drop_duplicates key (sort_values le (drop_duplicates key (sort_values le xs)))
          = drop_duplicates key (sort_values le xs)"
proof -
  let ?d = "drop_duplicates key (sort_values le xs)"
  have "sorted_wrt le ?d"
    using sorted_wrt_sort_values [OF tp] by (rule sorted_wrt_drop_duplicates)
  then have "sort_values le ?d = ?d" by (rule sort_values_sorted_id)
  then show ?thesis by (simp add: drop_duplicates_id distinct_drop_duplicates)
qed

lemma wrap_int64_id: "- (2 ^ 63) \<le> n \<Longrightarrow> n < 2 ^ 63 \<Longrightarrow> wrap_int64 n = n"
  by (simp add: wrap_int64_def)

lemma wrap_int64_small: "\<bar>n\<bar> \<le> 2 ^ 53 \<Longrightarrow> wrap_int64 n = n"
  by (rule wrap_int64_id) simp_all

lemma float64_of_int_exact: "\<bar>n\<bar> \<le> 2 ^ 53 \<Longrightarrow> float64_of_int n = n"
  by (simp add: float64_of_int_def)

lemma abs_sum_filter_take:
  fixes f :: "'a \<Rightarrow> int"
  shows "\<bar>sum_list (map f (filter P (take i xs)))\<bar> \<le> sum_list (map (\<lambda>x. \<bar>f x\<bar>) xs)"
proof (induction xs arbitrary: i)
  case Nil
  then show ?case by simp
next
  case (Cons x xs)
  have n: "0 \<le> sum_list (map (\<lambda>x. \<bar>f x\<bar>) xs)"
    by (rule sum_list_nonneg) auto
  show ?case
  proof (cases i)
    case 0
    with n show ?thesis by simp
  next
    case (Suc j)
    with Cons.IH [of j] show ?thesis by auto
  qed
qed

lemma group_shift_cumsum_nth:
  fixes rows :: "('k \<times> int) list"
  assumes inv: "\<And>k. astype_int (fillna 0 (prev k)) = acc k"
    and small: "\<And>k. \<bar>acc k\<bar> \<le> m"
    and bound: "m + sum_list (map (\<lambda>p. \<bar>snd p\<bar>) rows) \<le> 2 ^ 53"
    and i: "i < length rows"
  shows "map (\<lambda>v. astype_int (fillna 0 v))
           (group_shift_from prev (zip (map fst rows) (group_cumsum_from acc rows))) ! i
         = acc (fst (rows ! i))
           + sum_list (map snd (filter (\<lambda>p. fst p = fst (rows ! i)) (take i rows)))"
  using assms
proof (induction rows arbitrary: prev acc i m)
  case Nil
  then show ?case by simp
next
  case (Cons p rows)
  obtain k v where p: "p = (k, v)" by (cases p)
  have n: "0 \<le> sum_list (map (\<lambda>p. \<bar>snd p\<bar>) rows)"
    by (rule sum_list_nonneg) auto
  have "\<bar>acc k + v\<bar> \<le> m + \<bar>v\<bar>" using Cons.prems(2) [of k] by simp
  moreover have b: "m + \<bar>v\<bar> + sum_list (map (\<lambda>p. \<bar>snd p\<bar>) rows) \<le> 2 ^ 53"
    using Cons.prems(3) by (simp add: p)
  ultimately have s: "\<bar>acc k + v\<bar> \<le> 2 ^ 53" using n by linarith
  then have w: "wrap_int64 (acc k + v) = acc k + v" by (rule wrap_int64_small)
  show ?case
  proof (cases i)
    case 0
    then show ?thesis using Cons.prems(1) [of k] by (simp add: p)
  next
    case (Suc j)
    then have j: "j < length rows" using Cons.prems(4) by simp
    have inv: "astype_int (fillna 0 ((prev(k \<mapsto> float64_of_int (acc k + v))) k'))
                 = (acc(k := acc k + v)) k'" for k'
      using Cons.prems(1) [of k'] s
      by (simp add: fillna_def astype_int_def float64_of_int_exact wrap_int64_small)
    have small: "\<bar>(acc(k := acc k + v)) k'\<bar> \<le> m + \<bar>v\<bar>" for k'
      using Cons.prems(2) [of k'] Cons.prems(2) [of k] by (cases "k' = k") auto
    have "map (\<lambda>v. astype_int (fillna 0 v))
            (group_shift_from (prev(k \<mapsto> float64_of_int (acc k + v)))
              (zip (map fst rows) (group_cumsum_from (acc(k := acc k + v)) rows))) ! j
          = (acc(k := acc k + v)) (fst (rows ! j))
            + sum_list (map snd (filter (\<lambda>p. fst p = fst (rows ! j)) (take j rows)))"
      using inv small b j by (rule Cons.IH)
    then show ?thesis by (simp add: p Suc w)
  qed
qed

lemma length_group_cumsum_from [simp]: "length (group_cumsum_from acc rows) = length rows"
  by (induction rows arbitrary: acc) auto

lemma length_group_shift_from [simp]: "length (group_shift_from prev rows) = length rows"
  by (induction rows arbitrary: prev) auto

lemma shifted_group_cumsum_nth:
  fixes val :: "'a \<Rightarrow> int"
  assumes "i < length df" and b: "sum_list (map (\<lambda>r. \<bar>val r\<bar>) df) \<le> 2 ^ 53"
  shows "map (\<lambda>v. astype_int (fillna 0 v))
           (group_shift (map key df) (group_cumsum (map key df) (map val df))) ! i
         = sum_list (map val (filter (\<lambda>r. key r = key (df ! i)) (take i df)))"
proof -
  let ?rows = "zip (map key df) (map val df)"
  have l: "i < length ?rows" using assms by simp
  have fst: "map fst ?rows = map key df" by (simp add: map_fst_zip)
  have inv: "astype_int (fillna 0 (Map.empty k)) = (\<lambda>k. 0) k" for k :: 'b
    by (simp add: fillna_def astype_int_def wrap_int64_def)
  have small: "\<bar>(\<lambda>k. 0) k\<bar> \<le> (0::int)" for k :: 'b by simp
  have bound: "0 + sum_list (map (\<lambda>p. \<bar>snd p\<bar>) ?rows) \<le> 2 ^ 53"
    using b by (simp add: zip_map_map zip_same_conv_map comp_def)
  have "map (\<lambda>v. astype_int (fillna 0 v))
          (group_shift_from Map.empty (zip (map fst ?rows) (group_cumsum_from (\<lambda>k. 0) ?rows))) ! i
        = (\<lambda>k. 0) (fst (?rows ! i))
          + sum_list (map snd (filter (\<lambda>p. fst p = fst (?rows ! i)) (take i ?rows)))"
    using inv small bound l by (rule group_shift_cumsum_nth)
  then have "map (\<lambda>v. astype_int (fillna 0 v))
          (group_shift (map key df) (group_cumsum (map key df) (map val df))) ! i
        = sum_list (map snd (filter (\<lambda>p. fst p = fst (?rows ! i)) (take i ?rows)))"
    unfolding group_shift_def group_cumsum_def fst by simp
  also have "\<dots> = sum_list (map snd (filter (\<lambda>p. fst p = key (df ! i)) (map (\<lambda>r. (key r, val r)) (take i df))))"
    using assms by (simp add: zip_map_map zip_same_conv_map comp_def take_map)
  also have "\<dots> = sum_list (map val (filter (\<lambda>r. key r = key (df ! i)) (take i df)))"
    by (simp add: filter_map comp_def)
  finally show ?thesis .
qed

lemma distinct_map_insort_by:
  "distinct (map f (insort_by le x ys)) \<longleftrightarrow> f x \<notin> f ` set ys \<and> distinct (map f ys)"
  by (induction ys) auto

lemma distinct_map_sort_values:
  "distinct (map f (sort_values le xs)) \<longleftrightarrow> distinct (map f xs)"
  by (induction xs) (auto simp: sort_values_Cons distinct_map_insort_by)

lemma then_by_weaken:
  "total_preorder le1 \<Longrightarrow> then_by le1 le2 x y \<Longrightarrow> le1 x y"
  unfolding then_by_def by (auto split: if_splits)

lemma then_by_mono:
  assumes "\<And>x y. le2 x y \<Longrightarrow> le2' x y"
  shows "then_by le1 le2 x y \<Longrightarrow> then_by le1 le2' x y"
  unfolding then_by_def using assms by (auto split: if_splits)

lemma total_preorder_games_order: "total_preorder games_order"
  unfolding games_order_def
  by (intro total_preorder_then_by total_preorder_ascending total_preorder_descending)

lemma total_preorder_linescores_dedup_order: "total_preorder linescores_dedup_order"
  unfolding linescores_dedup_order_def
  by (intro total_preorder_then_by total_preorder_ascending total_preorder_descending)

lemma total_preorder_runners_dedup_order: "total_preorder runners_dedup_order"
  unfolding runners_dedup_order_def
  by (intro total_preorder_then_by total_preorder_ascending total_preorder_descending
      total_preorder_ascending_na_last)

lemma total_preorder_chronological_order: "total_preorder chronological_order"
  unfolding chronological_order_def
  by (intro total_preorder_then_by total_preorder_ascending)

lemma dedup_order_chronological:
  assumes "linescores_dedup_order x y"
  shows "chronological_order (normalize_runs x) (normalize_runs y)"
  using assms
  unfolding linescores_dedup_order_def chronological_order_def then_by_def ascending_def
    descending_def normalize_runs_def
  by (simp split: if_splits)

lemma sorted_wrt_dedup_linescores:
  "sorted_wrt linescores_dedup_order (dedup_linescores raw)"
  unfolding dedup_linescores_def
  by (intro sorted_wrt_drop_duplicates sorted_wrt_sort_values total_preorder_linescores_dedup_order)

lemma linescores_chronological_eq:
  "linescores_chronological raw = map normalize_runs (dedup_linescores raw)"
proof -
  have "sorted_wrt chronological_order (map normalize_runs (dedup_linescores raw))"
    unfolding sorted_wrt_map
    by (rule sorted_wrt_mono_rel [OF _ sorted_wrt_dedup_linescores])
       (rule dedup_order_chronological)
  then show ?thesis
    unfolding linescores_chronological_def by (rule sort_values_sorted_id)
qed

lemma length_battingteam_score [simp]: "length (battingteam_score df) = length df"
  by (simp add: battingteam_score_def group_shift_def cum_runs_batting_def group_cumsum_def)

lemma length_total_score [simp]: "length (total_score df) = length df"
  by (simp add: total_score_def group_shift_def cum_runs_total_def group_cumsum_def)

lemma length_add_scores [simp]: "length (add_scores df) = length df"
  by (simp add: add_scores_def)

lemma add_scores_nth:
  "i < length df \<Longrightarrow>
   add_scores df ! i = linescore_out (df ! i) (battingteam_score df ! i) (total_score df ! i)"
  by (simp add: add_scores_def)

lemma battingteam_score_nth:
  "i < length df \<Longrightarrow> sum_list (map (\<lambda>r. \<bar>ln_runs r\<bar>) df) \<le> 2 ^ 53 \<Longrightarrow>
   battingteam_score df ! i
     = sum_list (map ln_runs (filter (\<lambda>r. batting_key r = batting_key (df ! i)) (take i df)))"
  unfolding battingteam_score_def cum_runs_batting_def by (rule shifted_group_cumsum_nth)

lemma total_score_nth:
  "i < length df \<Longrightarrow> sum_list (map (\<lambda>r. \<bar>ln_runs r\<bar>) df) \<le> 2 ^ 53 \<Longrightarrow>
   total_score df ! i
     = sum_list (map ln_runs (filter (\<lambda>r. ln_gamePk r = ln_gamePk (df ! i)) (take i df)))"
  unfolding total_score_def cum_runs_total_def by (rule shifted_group_cumsum_nth)

lemma score_diff_exact:
  assumes "\<bar>bs\<bar> \<le> 2 ^ 53" and "\<bar>ts\<bar> \<le> 2 ^ 53"
  shows "wrap_int64 (bs - wrap_int64 (ts - bs)) = bs - (ts - bs)"
proof -
  have "wrap_int64 (ts - bs) = ts - bs"
    using assms by (intro wrap_int64_id) simp_all
  moreover have "wrap_int64 (bs - (ts - bs)) = bs - (ts - bs)"
    using assms by (intro wrap_int64_id) simp_all
  ultimately show ?thesis by simp
qed

lemmas linescore_defs =
  process_linescores_def linescores_chronological_def dedup_linescores_def
  linescores_dedup_order_def chronological_order_def then_by_def ascending_def descending_def
  sort_values_def drop_duplicates_def lr_key_def normalize_runs_def fillna_def
  add_scores_def battingteam_score_def total_score_def cum_runs_batting_def cum_runs_total_def
  group_cumsum_def group_shift_def batting_key_def linescore_out_def
  wrap_int64_def astype_int_def float64_of_int_def

lemma scenario_eval:
  "map (\<lambda>r. (ls_inning r, ls_half r, ls_battingteam_score r, ls_battingteam_score_diff r))
     (process_linescores scenario_linescores)
   = [(1, ''BOT'', 0, 0), (1, ''TOP'', 0, 0), (2, ''TOP'', 2, 2)]"
  by (simp add: scenario_linescores_def scenario_row_def linescore_defs)

lemma groupby_member:
  assumes "(k, g) \<in> set (groupby key df)"
  shows "g = filter (\<lambda>r. key r = k) df \<and> k \<in> key ` set df \<and> g \<noteq> []"
proof -
  from assms have k: "k \<in> set (drop_duplicates (\<lambda>k. k) (map key df))"
    and g: "g = filter (\<lambda>r. key r = k) df"
    by (auto simp: groupby_def)
  from k set_drop_duplicates [of "\<lambda>k. k" "map key df"] have "k \<in> set (map key df)"
    by blast
  then have m: "k \<in> key ` set df" by simp
  then have "filter (\<lambda>r. key r = k) df \<noteq> []"
    by (auto simp: filter_empty_conv)
  with g m show ?thesis by simp
qed

lemma last_filter_index:
  "filter P xs \<noteq> [] \<Longrightarrow>
   \<exists>i<length xs. P (xs ! i) \<and> (\<forall>j<length xs. i < j \<longrightarrow> \<not> P (xs ! j))
      \<and> last (filter P xs) = xs ! i"
proof (induction xs rule: rev_induct)
  case Nil
  then show ?case by simp
next
  case (snoc x xs)
  show ?case
  proof (cases "P x")
    case True
    then have "P ((xs @ [x]) ! length xs) \<and> (\<forall>j<length (xs @ [x]). length xs < j \<longrightarrow> \<not> P ((xs @ [x]) ! j))
        \<and> last (filter P (xs @ [x])) = (xs @ [x]) ! length xs"
      by simp
    moreover have "length xs < length (xs @ [x])" by simp
    ultimately show ?thesis by blast
  next
    case False
    with snoc.prems have "filter P xs \<noteq> []" by simp
    from snoc.IH [OF this] obtain i where i: "i < length xs" "P (xs ! i)"
      "\<forall>j<length xs. i < j \<longrightarrow> \<not> P (xs ! j)" "last (filter P xs) = xs ! i"
      by blast
    have "\<not> P ((xs @ [x]) ! j)" if "j < length (xs @ [x])" "i < j" for j
    proof (cases "j < length xs")
      case True
      with i(3) that show ?thesis by (simp add: nth_append)
    next
      case False
      with that have "j = length xs" by simp
      with \<open>\<not> P x\<close> show ?thesis by simp
    qed
    with i False have "i < length (xs @ [x]) \<and> P ((xs @ [x]) ! i)
        \<and> (\<forall>j<length (xs @ [x]). i < j \<longrightarrow> \<not> P ((xs @ [x]) ! j))
        \<and> last (filter P (xs @ [x])) = (xs @ [x]) ! i"
      by (simp add: nth_append)
    then show ?thesis by blast
  qed
qed

lemma process_runner_play_member:
  assumes "r \<in> set (process_runner_play raw)"
  shows "\<exists>g. g = filter (\<lambda>s. play_key s = rp_key r) (runner_segments raw) \<and> g \<noteq> []
           \<and> r = derive (aggregate (rp_key r, g))"
proof -
  from assms obtain k g where kg: "(k, g) \<in> set (groupby play_key (runner_segments raw))"
    and r: "r = derive (aggregate (k, g))"
    by (auto simp: process_runner_play_def)
  obtain a b c d where k: "k = (a, b, c, d)" by (cases k)
  have e: "rp_key r = k"
    by (simp add: r k rp_key_def derive_def aggregate_def)
  have g: "g = filter (\<lambda>s. play_key s = k) (runner_segments raw)" and n: "g \<noteq> []"
    using groupby_member [OF kg] by blast+
  from g n r show ?thesis unfolding e by blast
qed

lemma derive_aggregate_fields:
  "rp_startbase (derive (aggregate (k, g))) = sg_startbase (hd g)"
  "rp_endbase (derive (aggregate (k, g))) = sg_endbase (last g)"
  "rp_reachedbase (derive (aggregate (k, g))) = calculate_reached_base g"
  "rp_eventtype (derive (aggregate (k, g))) = uniq_join_keep_dups (map sg_eventtype g)"
  "rp_is_out (derive (aggregate (k, g))) = list_ex sg_is_out g"
  by (cases k; simp add: derive_def aggregate_def)+

lemma derive_flags:
  "rp_is_risp (derive a) \<longleftrightarrow> ra_startbase a = ''2B'' \<or> ra_startbase a = ''3B''"
  "rp_is_firsttothird (derive a) \<longleftrightarrow>
     ra_startbase a = ''1B'' \<and> ra_reachedbase a = ''3B''
     \<and> \<not> str_contains ''home_run'' (ra_eventtype a) \<and> \<not> ra_is_out a"
  "rp_is_secondtohome (derive a) \<longleftrightarrow>
     ra_startbase a = ''2B'' \<and> ra_reachedbase a = ''HM''
     \<and> \<not> str_contains ''home_run'' (ra_eventtype a) \<and> \<not> ra_is_out a"
  "rp_startbase (derive a) = ra_startbase a"
  "rp_reachedbase (derive a) = ra_reachedbase a"
  "rp_eventtype (derive a) = ra_eventtype a"
  "rp_is_out (derive a) = ra_is_out a"
  by (simp_all add: derive_def)

lemma is_prefix_iff: "is_prefix pat s \<longleftrightarrow> (\<exists>v. s = pat @ v)"
  by (induction pat s rule: is_prefix.induct) auto

lemma occurs_in_iff: "occurs_in pat s \<longleftrightarrow> (\<exists>u v. s = u @ pat @ v)"
proof (induction s)
  case Nil
  then show ?case by auto
next
  case (Cons c cs)
  have "(\<exists>u v. c # cs = u @ pat @ v) \<longleftrightarrow> (\<exists>v. c # cs = pat @ v) \<or> (\<exists>u v. cs = u @ pat @ v)"
  proof
    assume "\<exists>u v. c # cs = u @ pat @ v"
    then obtain u v where e: "c # cs = u @ pat @ v" by blast
    show "(\<exists>v. c # cs = pat @ v) \<or> (\<exists>u v. cs = u @ pat @ v)"
    proof (cases u)
      case Nil
      with e show ?thesis by auto
    next
      case (Cons a u')
      with e have "cs = u' @ pat @ v" by simp
      then show ?thesis by blast
    qed
  next
    assume "(\<exists>v. c # cs = pat @ v) \<or> (\<exists>u v. cs = u @ pat @ v)"
    then show "\<exists>u v. c # cs = u @ pat @ v"
    proof
      assume "\<exists>v. c # cs = pat @ v"
      then obtain v where "c # cs = [] @ pat @ v" by auto
      then show ?thesis by blast
    next
      assume "\<exists>u v. cs = u @ pat @ v"
      then obtain u v where "c # cs = (c # u) @ pat @ v" by auto
      then show ?thesis by blast
    qed
  qed
  with Cons show ?case by (simp add: is_prefix_iff)
qed

lemma uniq_join_keep_dups_None:
  "uniq_join_keep_dups s = None \<longleftrightarrow> (\<forall>v\<in>set s. v = None \<or> v = Some [])"
proof -
  have "set (List.map_filter (\<lambda>v. v) s) = {x. Some x \<in> set s}"
    by (induction s) (auto simp: List.map_filter_simps split: option.splits)
  then have "filter (\<lambda>v. v \<noteq> []) (List.map_filter (\<lambda>v. v) s) = []
      \<longleftrightarrow> (\<forall>v\<in>set s. v = None \<or> v = Some [])"
    by (auto simp: filter_empty_conv)
  then show ?thesis
    by (simp add: uniq_join_keep_dups_def Let_def)
qed

lemma rp_key_derive_aggregate: "rp_key (derive (aggregate (k, g))) = k"
  by (cases k) (simp add: rp_key_def derive_def aggregate_def)

lemma take_1_filter_eq:
  assumes "k \<in> set xs"
  shows "take 1 (filter (\<lambda>y. y = k) xs) = [k]"
proof -
  from assms have "filter (\<lambda>y. y = k) xs \<noteq> []"
    by (auto simp: filter_empty_conv)
  then obtain y ys where e: "filter (\<lambda>y. y = k) xs = y # ys"
    by (cases "filter (\<lambda>y. y = k) xs") auto
  then have "y \<in> set (filter (\<lambda>y. y = k) xs)" by simp
  then have "y = k" by simp
  with e show ?thesis by simp
qed

lemma process_runner_play_eq:
  "process_runner_play raw
     = map (\<lambda>k. derive (aggregate (k, filter (\<lambda>s. play_key s = k) (runner_segments raw))))
         (drop_duplicates (\<lambda>k. k) (map play_key (runner_segments raw)))"
  by (simp add: process_runner_play_def groupby_def comp_def)

lemma filter_process_runner_play:
  assumes "k \<in> play_key ` set (runner_segments raw)"
  shows "filter (\<lambda>r. rp_key r = k) (process_runner_play raw)
     = [derive (aggregate (k, filter (\<lambda>s. play_key s = k) (runner_segments raw)))]"
proof -
  let ?ks = "drop_duplicates (\<lambda>k. k) (map play_key (runner_segments raw))"
  have "filter (\<lambda>y. y = k) ?ks = take 1 (filter (\<lambda>y. y = k) (map play_key (runner_segments raw)))"
    by (rule filter_drop_duplicates)
  also have "\<dots> = [k]"
    using assms by (intro take_1_filter_eq) simp
  finally have f: "filter (\<lambda>y. y = k) ?ks = [k]" .
  show ?thesis
    unfolding process_runner_play_eq
    by (simp add: filter_map comp_def rp_key_derive_aggregate f)
qed

lemma process_runner_play_keys:
  "rp_key ` set (process_runner_play raw) = play_key ` set (runner_segments raw)"
proof -
  have "rp_key ` set (process_runner_play raw)
      = set (drop_duplicates (\<lambda>k. k) (map play_key (runner_segments raw)))"
    unfolding process_runner_play_eq
    by (simp add: image_image rp_key_derive_aggregate)
  also have "\<dots> = play_key ` set (runner_segments raw)"
    using keys_drop_duplicates [of "\<lambda>k. k" "map play_key (runner_segments raw)"] by simp
  finally show ?thesis .
qed

section \<open>Claims\<close>

text \<open>
  C1, as the code has it. The frame that the scores are computed on is sorted by
  \<^verbatim>\<open>(gamePk, inning, half)\<close> and holds one row per key. When the absolute values of its
  \<^verbatim>\<open>runs\<close> sum to at most \<open>2 ^ 53\<close>, the \<^verbatim>\<open>battingteam_score\<close> of a row is the sum of the
  runs of the strictly earlier rows with the same \<^verbatim>\<open>gamePk\<close> and \<^verbatim>\<open>battingteamid\<close> (so it
  is 0 for the first row of such a group), \<^verbatim>\<open>total_score\<close> is the sum of the runs of the
  strictly earlier rows of the same \<^verbatim>\<open>gamePk\<close>, and \<^verbatim>\<open>battingteam_score_diff\<close> is
  \<^verbatim>\<open>battingteam_score - (total_score - battingteam_score)\<close>. On the three rows of the
  scenario, the row of the top of the second inning, the third row, has
  \<^verbatim>\<open>battingteam_score = 2\<close> and \<^verbatim>\<open>battingteam_score_diff = 2\<close>. Beyond the bound the
  shifted sums pass through \<^verbatim>\<open>float64\<close> and are rounded, and the \<^verbatim>\<open>int64\<close> sums wrap.
\<close>

theorem linescore_running_scores:
  fixes raw :: "linescore_raw list"
  defines "df \<equiv> linescores_chronological raw"
  shows "sorted_wrt chronological_order df \<and> distinct (map ln_key df)
     \<and> length (process_linescores raw) = length df
     \<and> (sum_list (map (\<lambda>r. \<bar>ln_runs r\<bar>) df) \<le> 2 ^ 53 \<longrightarrow>
         (\<forall>i<length df.
          ls_battingteam_score (process_linescores raw ! i)
            = sum_list (map ln_runs
                (filter (\<lambda>r. ln_gamePk r = ln_gamePk (df ! i)
                            \<and> ln_battingteamid r = ln_battingteamid (df ! i)) (take i df)))
        \<and> total_score df ! i
            = sum_list (map ln_runs (filter (\<lambda>r. ln_gamePk r = ln_gamePk (df ! i)) (take i df)))
        \<and> ls_battingteam_score_diff (process_linescores raw ! i)
            = ls_battingteam_score (process_linescores raw ! i)
              - (total_score df ! i - ls_battingteam_score (process_linescores raw ! i))))
     \<and> map (\<lambda>r. (ls_inning r, ls_half r, ls_battingteam_score r, ls_battingteam_score_diff r))
          (process_linescores scenario_linescores)
        = [(1, ''BOT'', 0, 0), (1, ''TOP'', 0, 0), (2, ''TOP'', 2, 2)]"
proof -
  have s: "sorted_wrt chronological_order df"
    unfolding df_def linescores_chronological_def
    by (rule sorted_wrt_sort_values [OF total_preorder_chronological_order])
  have "map ln_key (map normalize_runs (dedup_linescores raw)) = map lr_key (dedup_linescores raw)"
    by (simp add: ln_key_def lr_key_def normalize_runs_def)
  then have d: "distinct (map ln_key df)"
    unfolding df_def linescores_chronological_eq dedup_linescores_def
    by (simp only: distinct_drop_duplicates)
  have l: "length (process_linescores raw) = length df"
    by (simp add: process_linescores_def df_def)
  have n: "ls_battingteam_score (process_linescores raw ! i)
            = sum_list (map ln_runs
                (filter (\<lambda>r. ln_gamePk r = ln_gamePk (df ! i)
                            \<and> ln_battingteamid r = ln_battingteamid (df ! i)) (take i df)))
        \<and> total_score df ! i
            = sum_list (map ln_runs (filter (\<lambda>r. ln_gamePk r = ln_gamePk (df ! i)) (take i df)))
        \<and> ls_battingteam_score_diff (process_linescores raw ! i)
            = ls_battingteam_score (process_linescores raw ! i)
              - (total_score df ! i - ls_battingteam_score (process_linescores raw ! i))"
    if b: "sum_list (map (\<lambda>r. \<bar>ln_runs r\<bar>) df) \<le> 2 ^ 53" and i: "i < length df" for i
  proof -
    have o: "process_linescores raw ! i
              = linescore_out (df ! i) (battingteam_score df ! i) (total_score df ! i)"
      unfolding process_linescores_def df_def [symmetric] using i by (rule add_scores_nth)
    have bs: "battingteam_score df ! i
        = sum_list (map ln_runs (filter (\<lambda>r. batting_key r = batting_key (df ! i)) (take i df)))"
      using i b by (rule battingteam_score_nth)
    have ts: "total_score df ! i
        = sum_list (map ln_runs (filter (\<lambda>r. ln_gamePk r = ln_gamePk (df ! i)) (take i df)))"
      using i b by (rule total_score_nth)
    have "\<bar>battingteam_score df ! i\<bar> \<le> 2 ^ 53"
      unfolding bs using abs_sum_filter_take [of ln_runs _ i df] b by (rule order_trans)
    moreover have "\<bar>total_score df ! i\<bar> \<le> 2 ^ 53"
      unfolding ts using abs_sum_filter_take [of ln_runs _ i df] b by (rule order_trans)
    ultimately have e: "wrap_int64 (battingteam_score df ! i
          - wrap_int64 (total_score df ! i - battingteam_score df ! i))
        = battingteam_score df ! i - (total_score df ! i - battingteam_score df ! i)"
      by (rule score_diff_exact)
    have "ls_battingteam_score (process_linescores raw ! i) = battingteam_score df ! i"
      by (simp add: o linescore_out_def)
    moreover have "ls_battingteam_score_diff (process_linescores raw ! i)
        = battingteam_score df ! i - (total_score df ! i - battingteam_score df ! i)"
      by (simp add: o linescore_out_def e)
    ultimately show ?thesis
      using bs ts by (simp add: batting_key_def)
  qed
  then have m: "sum_list (map (\<lambda>r. \<bar>ln_runs r\<bar>) df) \<le> 2 ^ 53 \<longrightarrow>
         (\<forall>i<length df.
          ls_battingteam_score (process_linescores raw ! i)
            = sum_list (map ln_runs
                (filter (\<lambda>r. ln_gamePk r = ln_gamePk (df ! i)
                            \<and> ln_battingteamid r = ln_battingteamid (df ! i)) (take i df)))
        \<and> total_score df ! i
            = sum_list (map ln_runs (filter (\<lambda>r. ln_gamePk r = ln_gamePk (df ! i)) (take i df)))
        \<and> ls_battingteam_score_diff (process_linescores raw ! i)
            = ls_battingteam_score (process_linescores raw ! i)
              - (total_score df ! i - ls_battingteam_score (process_linescores raw ! i)))"
    by (intro impI allI)
  show ?thesis
    using s d l m scenario_eval by (intro conjI) assumption+
qed

theorem linescore_running_scores_witness:
  "ls_battingteam_score (process_linescores scenario_linescores ! 2) = 2
   \<and> total_score (linescores_chronological scenario_linescores) ! 2 = 2
   \<and> ls_battingteam_score_diff (process_linescores scenario_linescores ! 2) = 2"
proof -
  have len: "(2::nat) < length (linescores_chronological scenario_linescores)"
    by (simp add: scenario_linescores_def scenario_row_def linescore_defs)
  have df: "linescores_chronological scenario_linescores
        = map normalize_runs [scenario_row 1 ''BOT'' 102 0, scenario_row 1 ''TOP'' 101 2,
             scenario_row 2 ''TOP'' 101 1]"
    by (simp add: scenario_linescores_def scenario_row_def linescore_defs)
  have h: "sum_list (map (\<lambda>r. \<bar>ln_runs r\<bar>) (linescores_chronological scenario_linescores))
             \<le> 2 ^ 53"
    unfolding df by (simp add: scenario_row_def normalize_runs_def fillna_def)
  note t = linescore_running_scores [of scenario_linescores]
  note q = mp [OF conjunct1 [OF conjunct2 [OF conjunct2 [OF conjunct2 [OF t]]]] h]
  note r = q [rule_format, OF len]
  from r show ?thesis
    unfolding df by (simp add: scenario_row_def normalize_runs_def fillna_def)
qed

theorem large_runs_rounded:
  "map (\<lambda>r. (ls_inning r, ls_runs r, ls_battingteam_score r))
     (process_linescores large_runs_linescores)
     = [(1, 9007199254740993, 0), (2, 0, 9007199254740992)]
   \<and> map (\<lambda>r. (ls_inning r, ls_runs r, ls_battingteam_score r))
       (process_linescores overflowing_linescores)
     = [(1, 4611686018427387904, 0), (2, 4611686018427387904, 4611686018427387904),
        (3, 0, - 9223372036854775808)]"
  by code_simp

lemma games_order_same_key:
  "gr_gamePk x = gr_gamePk y \<Longrightarrow>
   games_order x y = (gr_source_folder_date y \<le> gr_source_folder_date x)"
  by (simp add: games_order_def then_by_def ascending_def descending_def)

lemma linescores_dedup_order_same_key:
  "lr_key x = lr_key y \<Longrightarrow>
   linescores_dedup_order x y = (lr_source_folder_date y \<le> lr_source_folder_date x)"
  by (simp add: linescores_dedup_order_def lr_key_def then_by_def ascending_def descending_def)

lemma filter_process_games:
  "filter (\<lambda>g. g_gamePk g = k) (process_games games)
     = map drop_game_source_folder_date (filter (\<lambda>x. gr_gamePk x = k) (dedup_games games))"
  by (simp add: process_games_def filter_map comp_def drop_game_source_folder_date_def)

lemma dedup_games_latest:
  assumes "k \<in> gr_gamePk ` set games"
  shows "\<exists>r\<in>set games. gr_gamePk r = k
      \<and> filter (\<lambda>g. g_gamePk g = k) (process_games games) = [drop_game_source_folder_date r]
      \<and> (\<forall>x\<in>set games. gr_gamePk x = k \<longrightarrow> gr_source_folder_date x \<le> gr_source_folder_date r)
      \<and> find (\<lambda>x. gr_gamePk x = k \<and> gr_source_folder_date x = gr_source_folder_date r) games
          = Some r"
proof -
  from dedup_survivor [OF total_preorder_games_order assms]
  obtain r rest where f: "filter (\<lambda>y. gr_gamePk y = k) (dedup_games games) = [r]"
    and r: "r \<in> set games" "gr_gamePk r = k"
    and m: "\<forall>x\<in>set games. gr_gamePk x = k \<longrightarrow> games_order r x"
    and s: "filter (\<lambda>y. gr_gamePk y = k) (sort_values games_order games) = r # rest"
    unfolding dedup_games_def by blast
  have latest: "\<forall>x\<in>set games. gr_gamePk x = k \<longrightarrow> gr_source_folder_date x \<le> gr_source_folder_date r"
    using m r(2) by (simp add: games_order_same_key)
  have first: "find (\<lambda>x. gr_gamePk x = k \<and> gr_source_folder_date x = gr_source_folder_date r) games
                 = Some r"
    by (rule dedup_first_among_equals [OF s]) (simp_all add: r games_order_same_key)
  have out: "filter (\<lambda>g. g_gamePk g = k) (process_games games) = [drop_game_source_folder_date r]"
    by (simp add: filter_process_games f)
  from r latest first out show ?thesis by blast
qed

lemma dedup_linescores_latest:
  assumes "k \<in> lr_key ` set linescores"
  shows "\<exists>r\<in>set linescores. lr_key r = k
      \<and> filter (\<lambda>x. lr_key x = k) (dedup_linescores linescores) = [r]
      \<and> (\<forall>x\<in>set linescores. lr_key x = k \<longrightarrow> lr_source_folder_date x \<le> lr_source_folder_date r)
      \<and> find (\<lambda>x. lr_key x = k \<and> lr_source_folder_date x = lr_source_folder_date r) linescores
          = Some r"
proof -
  from dedup_survivor [OF total_preorder_linescores_dedup_order assms]
  obtain r rest where f: "filter (\<lambda>y. lr_key y = k) (dedup_linescores linescores) = [r]"
    and r: "r \<in> set linescores" "lr_key r = k"
    and m: "\<forall>x\<in>set linescores. lr_key x = k \<longrightarrow> linescores_dedup_order r x"
    and s: "filter (\<lambda>y. lr_key y = k) (sort_values linescores_dedup_order linescores) = r # rest"
    unfolding dedup_linescores_def by blast
  have latest: "\<forall>x\<in>set linescores. lr_key x = k \<longrightarrow> lr_source_folder_date x \<le> lr_source_folder_date r"
    using m r(2) by (simp add: linescores_dedup_order_same_key)
  have first: "find (\<lambda>x. lr_key x = k \<and> lr_source_folder_date x = lr_source_folder_date r) linescores
                 = Some r"
    by (rule dedup_first_among_equals [OF s]) (simp_all add: r linescores_dedup_order_same_key)
  from r latest first f show ?thesis by blast
qed

lemma runners_dedup_order_same_key:
  "runner_key x = runner_key y \<Longrightarrow>
   runners_dedup_order x y = (rr_source_folder_date y \<le> rr_source_folder_date x)"
  by (simp add: runners_dedup_order_def runner_key_def then_by_def ascending_def descending_def
      ascending_na_last_def split: option.splits)

lemma dedup_runners_latest:
  assumes "k \<in> runner_key ` set runners"
  shows "\<exists>r\<in>set runners. runner_key r = k
      \<and> filter (\<lambda>x. runner_key x = k) (dedup_runners runners) = [r]
      \<and> (\<forall>x\<in>set runners. runner_key x = k \<longrightarrow> rr_source_folder_date x \<le> rr_source_folder_date r)
      \<and> find (\<lambda>x. runner_key x = k \<and> rr_source_folder_date x = rr_source_folder_date r) runners
          = Some r"
proof -
  from dedup_survivor [OF total_preorder_runners_dedup_order assms]
  obtain r rest where f: "filter (\<lambda>y. runner_key y = k) (dedup_runners runners) = [r]"
    and r: "r \<in> set runners" "runner_key r = k"
    and m: "\<forall>x\<in>set runners. runner_key x = k \<longrightarrow> runners_dedup_order r x"
    and s: "filter (\<lambda>y. runner_key y = k) (sort_values runners_dedup_order runners) = r # rest"
    unfolding dedup_runners_def by blast
  have latest: "\<forall>x\<in>set runners. runner_key x = k \<longrightarrow> rr_source_folder_date x \<le> rr_source_folder_date r"
    using m r(2) by (simp add: runners_dedup_order_same_key)
  have first: "find (\<lambda>x. runner_key x = k \<and> rr_source_folder_date x = rr_source_folder_date r) runners
                 = Some r"
    by (rule dedup_first_among_equals [OF s]) (simp_all add: r runners_dedup_order_same_key)
  from r latest first f show ?thesis by blast
qed

text \<open>
  C2. For every key that occurs in the input, the deduplication keeps exactly one row of
  that key; the row is a row of the input whose \<^verbatim>\<open>source_folder_date\<close> is the greatest of
  the key, and among the rows of the key with that date it is the first in input order.
  For games the row returned by \<^verbatim>\<open>process_games\<close> is that row without its folder date;
  for linescores and runner segments the statement is about the frame after
  \<^verbatim>\<open>drop_duplicates\<close>. The folder date is a string and is compared as a string.
\<close>

theorem dedup_keeps_latest_batch:
  fixes games :: "'f game_raw list" and linescores :: "linescore_raw list"
    and runners :: "runner_raw list"
  shows "(\<forall>k\<in>gr_gamePk ` set games. \<exists>r\<in>set games. gr_gamePk r = k
      \<and> filter (\<lambda>g. g_gamePk g = k) (process_games games) = [drop_game_source_folder_date r]
      \<and> (\<forall>x\<in>set games. gr_gamePk x = k \<longrightarrow> gr_source_folder_date x \<le> gr_source_folder_date r)
      \<and> find (\<lambda>x. gr_gamePk x = k \<and> gr_source_folder_date x = gr_source_folder_date r) games
          = Some r)
    \<and> (\<forall>k\<in>lr_key ` set linescores. \<exists>r\<in>set linescores. lr_key r = k
      \<and> filter (\<lambda>x. lr_key x = k) (dedup_linescores linescores) = [r]
      \<and> (\<forall>x\<in>set linescores. lr_key x = k \<longrightarrow> lr_source_folder_date x \<le> lr_source_folder_date r)
      \<and> find (\<lambda>x. lr_key x = k \<and> lr_source_folder_date x = lr_source_folder_date r) linescores
          = Some r)
    \<and> (\<forall>k\<in>runner_key ` set runners. \<exists>r\<in>set runners. runner_key r = k
      \<and> filter (\<lambda>x. runner_key x = k) (dedup_runners runners) = [r]
      \<and> (\<forall>x\<in>set runners. runner_key x = k \<longrightarrow> rr_source_folder_date x \<le> rr_source_folder_date r)
      \<and> find (\<lambda>x. runner_key x = k \<and> rr_source_folder_date x = rr_source_folder_date r) runners
          = Some r)"
  using dedup_games_latest [of _ games] dedup_linescores_latest [of _ linescores]
    dedup_runners_latest [of _ runners]
  by (intro conjI ballI) assumption+

theorem dedup_keeps_latest_batch_witness:
  "2 \<in> gr_gamePk ` set example_games
   \<and> filter (\<lambda>g. g_gamePk g = 2) (process_games example_games)
       = [\<lparr>g_gamePk = 2, g_fields = ''second extract''\<rparr>]
   \<and> (1, 1, ''TOP'') \<in> lr_key ` set example_linescores
   \<and> map lr_runs (filter (\<lambda>x. lr_key x = (1, 1, ''TOP'')) (dedup_linescores example_linescores))
       = [Some 3]"
proof -
  note t = dedup_keeps_latest_batch [of example_games example_linescores "[]"]
  have kg: "2 \<in> gr_gamePk ` set example_games"
    by (simp add: example_games_def game_row_def)
  have kl: "(1, 1, ''TOP'') \<in> lr_key ` set example_linescores"
    by (simp add: example_linescores_def lr_key_def)
  from conjunct1 [OF t, rule_format, OF kg]
  obtain r where r: "r \<in> set example_games" "gr_gamePk r = 2"
    and f: "filter (\<lambda>g. g_gamePk g = 2) (process_games example_games)
              = [drop_game_source_folder_date r]"
    and l: "\<forall>x\<in>set example_games. gr_gamePk x = 2
              \<longrightarrow> gr_source_folder_date x \<le> gr_source_folder_date r"
    and d: "find (\<lambda>x. gr_gamePk x = 2 \<and> gr_source_folder_date x = gr_source_folder_date r)
              example_games = Some r"
    by blast
  from l have "''2025-04-02'' \<le> gr_source_folder_date r"
    by (simp add: example_games_def game_row_def)
  with r(1) have b: "gr_source_folder_date r = ''2025-04-02''"
    by (auto simp: example_games_def game_row_def)
  from d have "r = game_row 2 ''2025-04-02'' ''second extract''"
    unfolding b by (simp add: example_games_def game_row_def)
  with f have g: "filter (\<lambda>g. g_gamePk g = 2) (process_games example_games)
       = [\<lparr>g_gamePk = 2, g_fields = ''second extract''\<rparr>]"
    by (simp add: drop_game_source_folder_date_def game_row_def)
  from conjunct1 [OF conjunct2 [OF t], rule_format, OF kl]
  obtain q where q: "q \<in> set example_linescores"
    and fq: "filter (\<lambda>x. lr_key x = (1, 1, ''TOP'')) (dedup_linescores example_linescores) = [q]"
    and lq: "\<forall>x\<in>set example_linescores. lr_key x = (1, 1, ''TOP'')
              \<longrightarrow> lr_source_folder_date x \<le> lr_source_folder_date q"
    by blast
  from lq have "''2025-04-02'' \<le> lr_source_folder_date q"
    by (simp add: example_linescores_def lr_key_def)
  with q have "lr_runs q = Some 3"
    by (auto simp: example_linescores_def)
  with fq have "map lr_runs (filter (\<lambda>x. lr_key x = (1, 1, ''TOP''))
      (dedup_linescores example_linescores)) = [Some 3]"
    by simp
  with kg g kl show ?thesis by (intro conjI) assumption+
qed

lemma first_to_third_play_eval:
  "map (\<lambda>r. (rp_startbase r, rp_endbase r, rp_reachedbase r, rp_eventtype r, rp_is_out r,
              rp_is_risp r, rp_is_firsttothird r, rp_is_secondtohome r))
     (process_runner_play first_to_third_play)
   = [(''1B'', ''3B'', ''3B'', None, False, False, True, False)]"
  by code_simp

lemma second_to_home_play_eval:
  "map (\<lambda>r. (rp_startbase r, rp_endbase r, rp_reachedbase r, rp_eventtype r, rp_is_out r,
              rp_is_risp r, rp_is_firsttothird r, rp_is_secondtohome r))
     (process_runner_play second_to_home_play)
   = [(''2B'', ''HM'', ''HM'', None, False, True, False, True)]"
  by code_simp

text \<open>
  C3, as the code has it. The deduplication of the runner segments is keyed on
  \<^verbatim>\<open>(gamePk, atBatIndex, playIndex, runnerid, start, end)\<close>, where \<^verbatim>\<open>start\<close> is the raw
  \<^verbatim>\<open>start\<close> column and not \<^verbatim>\<open>originBase\<close>: no two surviving segments agree on these six
  fields, every combination of the six fields that occurs in the input keeps a segment,
  and every surviving segment is a segment of the input.
\<close>

theorem dedup_runners_key:
  "distinct (map runner_key (dedup_runners raw))
   \<and> runner_key ` set (dedup_runners raw) = runner_key ` set raw
   \<and> set (dedup_runners raw) \<subseteq> set raw"
proof -
  have "distinct (map runner_key (dedup_runners raw))"
    unfolding dedup_runners_def by (rule distinct_drop_duplicates)
  moreover have "runner_key ` set (dedup_runners raw) = runner_key ` set raw"
    unfolding dedup_runners_def by (simp add: keys_drop_duplicates)
  moreover have "set (dedup_runners raw) \<subseteq> set raw"
    unfolding dedup_runners_def
    using set_drop_duplicates [of runner_key "sort_values runners_dedup_order raw"] by simp
  ultimately show ?thesis by (intro conjI) assumption+
qed

theorem dedup_runners_key_witness:
  "length (dedup_runners
     [runner_row (Some ''1B'') (Some ''1B'') (Some ''2B'') False None,
      runner_row (Some ''1B'') (Some ''1B'') (Some ''2B'') False None,
      runner_row (Some ''1B'') (Some ''2B'') (Some ''3B'') False None]) = 2"
proof -
  let ?raw = "[runner_row (Some ''1B'') (Some ''1B'') (Some ''2B'') False None,
      runner_row (Some ''1B'') (Some ''1B'') (Some ''2B'') False None,
      runner_row (Some ''1B'') (Some ''2B'') (Some ''3B'') False None]"
  note t = dedup_runners_key [of ?raw]
  have "card (set (map runner_key (dedup_runners ?raw)))
          = length (map runner_key (dedup_runners ?raw))"
    using conjunct1 [OF t] by (rule distinct_card)
  then have "length (dedup_runners ?raw) = card (runner_key ` set (dedup_runners ?raw))"
    by (simp only: set_map length_map)
  also have "\<dots> = card (runner_key ` set ?raw)"
    by (simp only: conjunct1 [OF conjunct2 [OF t]])
  also have "\<dots> = 2" by (simp add: runner_row_def runner_key_def)
  finally show ?thesis .
qed

theorem dedup_runners_not_keyed_on_originBase:
  "rr_originBase (runner_row (Some ''1B'') (Some ''2B'') (Some ''3B'') False None)
     \<noteq> rr_originBase (runner_row (Some ''2B'') (Some ''2B'') (Some ''3B'') False None)
   \<and> dedup_runners
       [runner_row (Some ''1B'') (Some ''2B'') (Some ''3B'') False None,
        runner_row (Some ''2B'') (Some ''2B'') (Some ''3B'') False None]
     = [runner_row (Some ''1B'') (Some ''2B'') (Some ''3B'') False None]
   \<and> dedup_runners
       [runner_row (Some ''1B'') (Some ''1B'') (Some ''3B'') False None,
        runner_row (Some ''1B'') (Some ''2B'') (Some ''3B'') False None]
     = [runner_row (Some ''1B'') (Some ''1B'') (Some ''3B'') False None,
        runner_row (Some ''1B'') (Some ''2B'') (Some ''3B'') False None]"
  by code_simp

text \<open>
  C4. The code at a play whose segments arrive in their order of occurrence: a batter
  reaches first base and then second base. The first segment has no \<^verbatim>\<open>start\<close>, so the
  sort of the deduplication places it after the second one, and the later sort by
  \<^verbatim>\<open>(gamepk, atbatindex, playindex)\<close> keeps that order: the merged \<^verbatim>\<open>endbase\<close> is the end
  base of the segment that occurred first.
\<close>

theorem batter_advance_endbase:
  "map (\<lambda>s. (sg_start s, sg_endbase s)) (runner_segments batter_advance_play)
     = [(''1B'', ''2B''), (''B'', ''1B'')]
   \<and> map (\<lambda>r. (rp_startbase r, rp_endbase r, rp_reachedbase r))
       (process_runner_play batter_advance_play)
     = [(''B'', ''1B'', ''1B'')]"
  by code_simp

text \<open>
  C5. The merged frame holds exactly one record for every play key of the prepared
  segment frame, and no other record. For every play key, the group of the key is not
  empty and gives the record its \<^verbatim>\<open>startbase\<close>. If every segment of the group is out,
  \<^verbatim>\<open>reachedbase\<close> is the \<^verbatim>\<open>startbase\<close> of the record; otherwise it is the end base of
  the last segment of the group, in the order of the frame, that is not out.
\<close>

theorem reached_base_last_safe:
  "rp_key ` set (process_runner_play raw) = play_key ` set (runner_segments raw)
   \<and> (\<forall>k\<in>play_key ` set (runner_segments raw).
        filter (\<lambda>s. play_key s = k) (runner_segments raw) \<noteq> []
        \<and> (\<exists>r. filter (\<lambda>r. rp_key r = k) (process_runner_play raw) = [r]
             \<and> rp_startbase r
                 = sg_startbase (hd (filter (\<lambda>s. play_key s = k) (runner_segments raw)))
             \<and> ((\<forall>s\<in>set (filter (\<lambda>s. play_key s = k) (runner_segments raw)). sg_is_out s)
                   \<longrightarrow> rp_reachedbase r = rp_startbase r)
             \<and> ((\<exists>s\<in>set (filter (\<lambda>s. play_key s = k) (runner_segments raw)). \<not> sg_is_out s)
                   \<longrightarrow> (\<exists>i<length (filter (\<lambda>s. play_key s = k) (runner_segments raw)).
                         \<not> sg_is_out (filter (\<lambda>s. play_key s = k) (runner_segments raw) ! i)
                       \<and> (\<forall>j<length (filter (\<lambda>s. play_key s = k) (runner_segments raw)).
                            i < j \<longrightarrow>
                            sg_is_out (filter (\<lambda>s. play_key s = k) (runner_segments raw) ! j))
                       \<and> rp_reachedbase r
                           = sg_endbase
                               (filter (\<lambda>s. play_key s = k) (runner_segments raw) ! i)))))"
proof -
  have per_key: "filter (\<lambda>s. play_key s = k) (runner_segments raw) \<noteq> []
        \<and> (\<exists>r. filter (\<lambda>r. rp_key r = k) (process_runner_play raw) = [r]
             \<and> rp_startbase r
                 = sg_startbase (hd (filter (\<lambda>s. play_key s = k) (runner_segments raw)))
             \<and> ((\<forall>s\<in>set (filter (\<lambda>s. play_key s = k) (runner_segments raw)). sg_is_out s)
                   \<longrightarrow> rp_reachedbase r = rp_startbase r)
             \<and> ((\<exists>s\<in>set (filter (\<lambda>s. play_key s = k) (runner_segments raw)). \<not> sg_is_out s)
                   \<longrightarrow> (\<exists>i<length (filter (\<lambda>s. play_key s = k) (runner_segments raw)).
                         \<not> sg_is_out (filter (\<lambda>s. play_key s = k) (runner_segments raw) ! i)
                       \<and> (\<forall>j<length (filter (\<lambda>s. play_key s = k) (runner_segments raw)).
                            i < j \<longrightarrow>
                            sg_is_out (filter (\<lambda>s. play_key s = k) (runner_segments raw) ! j))
                       \<and> rp_reachedbase r
                           = sg_endbase
                               (filter (\<lambda>s. play_key s = k) (runner_segments raw) ! i))))"
    if k: "k \<in> play_key ` set (runner_segments raw)" for k
  proof -
    define g where "g = filter (\<lambda>s. play_key s = k) (runner_segments raw)"
    define r where "r = derive (aggregate (k, g))"
    from k have n: "g \<noteq> []"
      unfolding g_def by (auto simp: filter_empty_conv)
    have f: "filter (\<lambda>r. rp_key r = k) (process_runner_play raw) = [r]"
      unfolding r_def g_def using k by (rule filter_process_runner_play)
    have s: "rp_startbase r = sg_startbase (hd g)"
      unfolding r_def by (simp add: derive_aggregate_fields)
    have c: "rp_reachedbase r = calculate_reached_base g"
      unfolding r_def by (simp add: derive_aggregate_fields)
    have a: "(\<forall>s\<in>set g. sg_is_out s) \<longrightarrow> rp_reachedbase r = rp_startbase r"
    proof
      assume "\<forall>s\<in>set g. sg_is_out s"
      then have "filter (\<lambda>s. sg_is_out s = False) g = []"
        by (simp add: filter_empty_conv)
      then show "rp_reachedbase r = rp_startbase r"
        by (simp add: c s calculate_reached_base_def)
    qed
    have b: "(\<exists>s\<in>set g. \<not> sg_is_out s) \<longrightarrow>
          (\<exists>i<length g. \<not> sg_is_out (g ! i)
            \<and> (\<forall>j<length g. i < j \<longrightarrow> sg_is_out (g ! j))
            \<and> rp_reachedbase r = sg_endbase (g ! i))"
    proof
      assume "\<exists>s\<in>set g. \<not> sg_is_out s"
      then have e: "filter (\<lambda>s. sg_is_out s = False) g \<noteq> []"
        by (simp add: filter_empty_conv)
      from last_filter_index [OF e]
      obtain i where i: "i < length g" "sg_is_out (g ! i) = False"
        "\<forall>j<length g. i < j \<longrightarrow> \<not> (sg_is_out (g ! j) = False)"
        "last (filter (\<lambda>s. sg_is_out s = False) g) = g ! i"
        by blast
      from e i(4) have "rp_reachedbase r = sg_endbase (g ! i)"
        by (simp add: c calculate_reached_base_def)
      with i show "\<exists>i<length g. \<not> sg_is_out (g ! i)
            \<and> (\<forall>j<length g. i < j \<longrightarrow> sg_is_out (g ! j))
            \<and> rp_reachedbase r = sg_endbase (g ! i)"
        by auto
    qed
    from n f s a b have "g \<noteq> []
        \<and> (\<exists>r. filter (\<lambda>r. rp_key r = k) (process_runner_play raw) = [r]
             \<and> rp_startbase r = sg_startbase (hd g)
             \<and> ((\<forall>s\<in>set g. sg_is_out s) \<longrightarrow> rp_reachedbase r = rp_startbase r)
             \<and> ((\<exists>s\<in>set g. \<not> sg_is_out s) \<longrightarrow>
                  (\<exists>i<length g. \<not> sg_is_out (g ! i)
                    \<and> (\<forall>j<length g. i < j \<longrightarrow> sg_is_out (g ! j))
                    \<and> rp_reachedbase r = sg_endbase (g ! i))))"
      by blast
    then show ?thesis unfolding g_def .
  qed
  show ?thesis
  proof (rule conjI)
    show "rp_key ` set (process_runner_play raw) = play_key ` set (runner_segments raw)"
      by (rule process_runner_play_keys)
  next
    show "\<forall>k\<in>play_key ` set (runner_segments raw).
        filter (\<lambda>s. play_key s = k) (runner_segments raw) \<noteq> []
        \<and> (\<exists>r. filter (\<lambda>r. rp_key r = k) (process_runner_play raw) = [r]
             \<and> rp_startbase r
                 = sg_startbase (hd (filter (\<lambda>s. play_key s = k) (runner_segments raw)))
             \<and> ((\<forall>s\<in>set (filter (\<lambda>s. play_key s = k) (runner_segments raw)). sg_is_out s)
                   \<longrightarrow> rp_reachedbase r = rp_startbase r)
             \<and> ((\<exists>s\<in>set (filter (\<lambda>s. play_key s = k) (runner_segments raw)). \<not> sg_is_out s)
                   \<longrightarrow> (\<exists>i<length (filter (\<lambda>s. play_key s = k) (runner_segments raw)).
                         \<not> sg_is_out (filter (\<lambda>s. play_key s = k) (runner_segments raw) ! i)
                       \<and> (\<forall>j<length (filter (\<lambda>s. play_key s = k) (runner_segments raw)).
                            i < j \<longrightarrow>
                            sg_is_out (filter (\<lambda>s. play_key s = k) (runner_segments raw) ! j))
                       \<and> rp_reachedbase r
                           = sg_endbase
                               (filter (\<lambda>s. play_key s = k) (runner_segments raw) ! i))))"
      using per_key by (rule ballI)
  qed
qed

theorem reached_base_last_safe_witness:
  "map (\<lambda>r. (rp_startbase r, rp_reachedbase r))
     (filter (\<lambda>r. rp_key r = (1, 0, 0, 7)) (process_runner_play caught_play))
   = [(''1B'', ''1B'')]"
proof -
  have k: "(1, 0, 0, 7) \<in> play_key ` set (runner_segments caught_play)"
    by code_simp
  have o: "\<forall>s\<in>set (filter (\<lambda>s. play_key s = (1, 0, 0, 7)) (runner_segments caught_play)).
             sg_is_out s"
    by code_simp
  have e: "map rp_startbase
             (filter (\<lambda>r. rp_key r = (1, 0, 0, 7)) (process_runner_play caught_play)) = [''1B'']"
    by code_simp
  note t = bspec [OF conjunct2 [OF reached_base_last_safe [of caught_play]] k]
  from conjunct2 [OF t] obtain r
    where f: "filter (\<lambda>r. rp_key r = (1, 0, 0, 7)) (process_runner_play caught_play) = [r]"
      and a: "(\<forall>s\<in>set (filter (\<lambda>s. play_key s = (1, 0, 0, 7)) (runner_segments caught_play)).
                 sg_is_out s) \<longrightarrow> rp_reachedbase r = rp_startbase r"
    by blast
  from a o have "rp_reachedbase r = rp_startbase r" by (rule mp)
  with e show ?thesis unfolding f by simp
qed

text \<open>
  C7. For every merged record, \<^verbatim>\<open>is_firsttothird\<close> holds exactly when \<^verbatim>\<open>startbase\<close> is
  \<^verbatim>\<open>"1B"\<close>, \<^verbatim>\<open>reachedbase\<close> is \<^verbatim>\<open>"3B"\<close>, the \<^verbatim>\<open>eventtype\<close> is missing or does not
  contain \<^verbatim>\<open>home_run\<close>, and \<^verbatim>\<open>is_out\<close> is false; \<^verbatim>\<open>is_risp\<close> holds exactly when
  \<^verbatim>\<open>startbase\<close> is \<^verbatim>\<open>"2B"\<close> or \<^verbatim>\<open>"3B"\<close>; and a record with \<^verbatim>\<open>is_firsttothird\<close> has
  \<^verbatim>\<open>is_risp\<close> false.
\<close>

theorem first_to_third_flag:
  assumes "r \<in> set (process_runner_play raw)"
  shows "(rp_is_firsttothird r \<longleftrightarrow>
            rp_startbase r = ''1B'' \<and> rp_reachedbase r = ''3B''
            \<and> \<not> (\<exists>e u v. rp_eventtype r = Some e \<and> e = u @ ''home_run'' @ v)
            \<and> rp_is_out r = False)
    \<and> (rp_is_risp r \<longleftrightarrow> rp_startbase r = ''2B'' \<or> rp_startbase r = ''3B'')
    \<and> (rp_is_firsttothird r \<longrightarrow> \<not> rp_is_risp r)"
proof -
  from process_runner_play_member [OF assms]
  obtain a where r: "r = derive a" by blast
  have h: "str_contains ''home_run'' (ra_eventtype a)
      \<longleftrightarrow> (\<exists>e u v. ra_eventtype a = Some e \<and> e = u @ ''home_run'' @ v)"
    by (cases "ra_eventtype a") (simp_all add: str_contains_def occurs_in_iff)
  have f: "rp_is_firsttothird r \<longleftrightarrow>
            rp_startbase r = ''1B'' \<and> rp_reachedbase r = ''3B''
            \<and> \<not> (\<exists>e u v. rp_eventtype r = Some e \<and> e = u @ ''home_run'' @ v)
            \<and> rp_is_out r = False"
    unfolding r derive_flags h by simp
  have p: "rp_is_risp r \<longleftrightarrow> rp_startbase r = ''2B'' \<or> rp_startbase r = ''3B''"
    unfolding r derive_flags by simp
  from f p have "rp_is_firsttothird r \<longrightarrow> \<not> rp_is_risp r" by simp
  with f p show ?thesis by (intro conjI) assumption+
qed

theorem first_to_third_flag_witness:
  "rp_is_firsttothird (hd (process_runner_play first_to_third_play))
   \<and> \<not> rp_is_risp (hd (process_runner_play first_to_third_play))"
proof -
  from first_to_third_play_eval
  have m: "hd (process_runner_play first_to_third_play)
             \<in> set (process_runner_play first_to_third_play)"
    and f: "rp_is_firsttothird (hd (process_runner_play first_to_third_play))"
    by (cases "process_runner_play first_to_third_play"; simp)+
  note t = first_to_third_flag [OF m]
  from f mp [OF conjunct2 [OF conjunct2 [OF t]] f] show ?thesis by (intro conjI) assumption+
qed

text \<open>
  C10. The merged frame holds exactly one record for every play key of the prepared
  segment frame, and no other record. When every segment of the group of a play key has
  a missing or empty \<^verbatim>\<open>eventtype\<close>, the \<^verbatim>\<open>eventtype\<close> of its record is missing, the test
  for \<^verbatim>\<open>home_run\<close> is false on it, and the two flags depend on the bases and on
  \<^verbatim>\<open>is_out\<close> only. There is such a play from \<^verbatim>\<open>"1B"\<close> to \<^verbatim>\<open>"3B"\<close> with
  \<^verbatim>\<open>is_firsttothird\<close> true and one from \<^verbatim>\<open>"2B"\<close> to \<^verbatim>\<open>"HM"\<close> with
  \<^verbatim>\<open>is_secondtohome\<close> true.
\<close>

theorem missing_eventtype_flags:
  "rp_key ` set (process_runner_play raw) = play_key ` set (runner_segments raw)
   \<and> (\<forall>k\<in>play_key ` set (runner_segments raw).
      (\<forall>s\<in>set (filter (\<lambda>s. play_key s = k) (runner_segments raw)).
          sg_eventtype s = None \<or> sg_eventtype s = Some [])
      \<longrightarrow> (\<exists>r. filter (\<lambda>r. rp_key r = k) (process_runner_play raw) = [r]
        \<and> rp_eventtype r = None
        \<and> \<not> str_contains ''home_run'' (rp_eventtype r)
        \<and> (rp_is_firsttothird r \<longleftrightarrow>
              rp_startbase r = ''1B'' \<and> rp_reachedbase r = ''3B'' \<and> \<not> rp_is_out r)
        \<and> (rp_is_secondtohome r \<longleftrightarrow>
              rp_startbase r = ''2B'' \<and> rp_reachedbase r = ''HM'' \<and> \<not> rp_is_out r)))
   \<and> map (\<lambda>r. (rp_startbase r, rp_endbase r, rp_reachedbase r, rp_eventtype r, rp_is_out r,
              rp_is_risp r, rp_is_firsttothird r, rp_is_secondtohome r))
       (process_runner_play first_to_third_play)
     = [(''1B'', ''3B'', ''3B'', None, False, False, True, False)]
   \<and> map (\<lambda>r. (rp_startbase r, rp_endbase r, rp_reachedbase r, rp_eventtype r, rp_is_out r,
              rp_is_risp r, rp_is_firsttothird r, rp_is_secondtohome r))
       (process_runner_play second_to_home_play)
     = [(''2B'', ''HM'', ''HM'', None, False, True, False, True)]"
proof -
  have g: "\<exists>r. filter (\<lambda>r. rp_key r = k) (process_runner_play raw) = [r]
        \<and> rp_eventtype r = None
        \<and> \<not> str_contains ''home_run'' (rp_eventtype r)
        \<and> (rp_is_firsttothird r \<longleftrightarrow>
              rp_startbase r = ''1B'' \<and> rp_reachedbase r = ''3B'' \<and> \<not> rp_is_out r)
        \<and> (rp_is_secondtohome r \<longleftrightarrow>
              rp_startbase r = ''2B'' \<and> rp_reachedbase r = ''HM'' \<and> \<not> rp_is_out r)"
    if k: "k \<in> play_key ` set (runner_segments raw)"
      and e: "\<forall>s\<in>set (filter (\<lambda>s. play_key s = k) (runner_segments raw)).
          sg_eventtype s = None \<or> sg_eventtype s = Some []"
    for k
  proof -
    define a where "a = aggregate (k, filter (\<lambda>s. play_key s = k) (runner_segments raw))"
    have f: "filter (\<lambda>r. rp_key r = k) (process_runner_play raw) = [derive a]"
      unfolding a_def using k by (rule filter_process_runner_play)
    have "rp_eventtype (derive a) = uniq_join_keep_dups (map sg_eventtype
            (filter (\<lambda>s. play_key s = k) (runner_segments raw)))"
      unfolding a_def by (simp add: derive_aggregate_fields)
    also have "\<dots> = None"
      unfolding uniq_join_keep_dups_None using e by simp
    finally have n: "rp_eventtype (derive a) = None" .
    then have "ra_eventtype a = None" by (simp add: derive_flags)
    then have "rp_eventtype (derive a) = None
        \<and> \<not> str_contains ''home_run'' (rp_eventtype (derive a))
        \<and> (rp_is_firsttothird (derive a) \<longleftrightarrow>
              rp_startbase (derive a) = ''1B'' \<and> rp_reachedbase (derive a) = ''3B''
              \<and> \<not> rp_is_out (derive a))
        \<and> (rp_is_secondtohome (derive a) \<longleftrightarrow>
              rp_startbase (derive a) = ''2B'' \<and> rp_reachedbase (derive a) = ''HM''
              \<and> \<not> rp_is_out (derive a))"
      by (simp add: derive_flags str_contains_def)
    with f show ?thesis by blast
  qed
  then have "\<forall>k\<in>play_key ` set (runner_segments raw).
      (\<forall>s\<in>set (filter (\<lambda>s. play_key s = k) (runner_segments raw)).
          sg_eventtype s = None \<or> sg_eventtype s = Some [])
      \<longrightarrow> (\<exists>r. filter (\<lambda>r. rp_key r = k) (process_runner_play raw) = [r]
        \<and> rp_eventtype r = None
        \<and> \<not> str_contains ''home_run'' (rp_eventtype r)
        \<and> (rp_is_firsttothird r \<longleftrightarrow>
              rp_startbase r = ''1B'' \<and> rp_reachedbase r = ''3B'' \<and> \<not> rp_is_out r)
        \<and> (rp_is_secondtohome r \<longleftrightarrow>
              rp_startbase r = ''2B'' \<and> rp_reachedbase r = ''HM'' \<and> \<not> rp_is_out r))"
    by (intro ballI impI)
  with process_runner_play_keys [of raw] first_to_third_play_eval second_to_home_play_eval
  show ?thesis
    by (intro conjI) assumption+
qed

theorem missing_eventtype_flags_witness:
  "map (\<lambda>r. (rp_eventtype r, rp_is_secondtohome r))
     (filter (\<lambda>r. rp_key r = (1, 0, 0, 7)) (process_runner_play second_to_home_play))
   = [(None, True)]"
proof -
  have k: "(1, 0, 0, 7) \<in> play_key ` set (runner_segments second_to_home_play)"
    by code_simp
  have e: "\<forall>s\<in>set (filter (\<lambda>s. play_key s = (1, 0, 0, 7)) (runner_segments second_to_home_play)).
          sg_eventtype s = None \<or> sg_eventtype s = Some []"
    by code_simp
  have b: "map (\<lambda>r. (rp_startbase r, rp_reachedbase r, rp_is_out r))
             (filter (\<lambda>r. rp_key r = (1, 0, 0, 7)) (process_runner_play second_to_home_play))
           = [(''2B'', ''HM'', False)]"
    by code_simp
  note t = conjunct1 [OF conjunct2 [OF missing_eventtype_flags [of second_to_home_play]]]
  from mp [OF bspec [OF t k] e] obtain r
    where f: "filter (\<lambda>r. rp_key r = (1, 0, 0, 7)) (process_runner_play second_to_home_play) = [r]"
      and n: "rp_eventtype r = None"
      and h: "rp_is_secondtohome r \<longleftrightarrow>
                rp_startbase r = ''2B'' \<and> rp_reachedbase r = ''HM'' \<and> \<not> rp_is_out r"
    by blast
  from b have "rp_startbase r = ''2B'' \<and> rp_reachedbase r = ''HM'' \<and> \<not> rp_is_out r"
    unfolding f by simp
  with h have "rp_is_secondtohome r" by simp
  with n show ?thesis unfolding f by simp
qed

lemma sorted_wrt_games_order_keys:
  assumes "distinct (map gr_gamePk games)"
  shows "sorted_wrt games_order games \<longleftrightarrow> sorted (map gr_gamePk games)"
  using assms
proof (induction games)
  case Nil
  then show ?case by simp
next
  case (Cons g games)
  have "games_order g x \<longleftrightarrow> gr_gamePk g \<le> gr_gamePk x" if "x \<in> set games" for x
  proof -
    from that Cons.prems have "gr_gamePk g \<noteq> gr_gamePk x" by auto
    then show ?thesis
      by (auto simp: games_order_def then_by_def ascending_def descending_def)
  qed
  with Cons show ?case by auto
qed

lemma dedup_games_unique:
  assumes "distinct (map gr_gamePk games)"
  shows "dedup_games games = sort_values games_order games"
  unfolding dedup_games_def
  by (rule drop_duplicates_id) (simp add: distinct_map_sort_values assms)

lemma dedup_games_unique_noop:
  assumes d: "distinct (map gr_gamePk games)"
  shows "dedup_games games = games \<longleftrightarrow> sorted (map gr_gamePk games)"
proof
  assume "dedup_games games = games"
  then have "sort_values games_order games = games"
    using dedup_games_unique [OF d] by simp
  then have "sorted_wrt games_order games"
    using sorted_wrt_sort_values [OF total_preorder_games_order, of games] by simp
  then show "sorted (map gr_gamePk games)"
    using sorted_wrt_games_order_keys [OF d] by simp
next
  assume "sorted (map gr_gamePk games)"
  then have "sorted_wrt games_order games"
    using sorted_wrt_games_order_keys [OF d] by simp
  then show "dedup_games games = games"
    using dedup_games_unique [OF d] by (simp add: sort_values_sorted_id)
qed

text \<open>
  C8, as the code has it. Deduplicating the result of a deduplication changes nothing, for
  games, linescores and runner segments. An input whose rows are already unique per key
  loses no row, but it is returned sorted by key: it is returned unchanged exactly when it
  was already in key order.
\<close>

theorem dedup_idempotent:
  fixes games :: "'f game_raw list"
  shows "dedup_games (dedup_games games) = dedup_games games
    \<and> dedup_linescores (dedup_linescores linescores) = dedup_linescores linescores
    \<and> dedup_runners (dedup_runners runners) = dedup_runners runners
    \<and> (distinct (map gr_gamePk games) \<longrightarrow>
         set (dedup_games games) = set games
         \<and> length (dedup_games games) = length games
         \<and> sorted (map gr_gamePk (dedup_games games))
         \<and> (dedup_games games = games \<longleftrightarrow> sorted (map gr_gamePk games)))"
proof -
  have g: "dedup_games (dedup_games games) = dedup_games games"
    unfolding dedup_games_def by (rule dedup_idem [OF total_preorder_games_order])
  have l: "dedup_linescores (dedup_linescores linescores) = dedup_linescores linescores"
    unfolding dedup_linescores_def by (rule dedup_idem [OF total_preorder_linescores_dedup_order])
  have r: "dedup_runners (dedup_runners runners) = dedup_runners runners"
    unfolding dedup_runners_def by (rule dedup_idem [OF total_preorder_runners_dedup_order])
  have u: "set (dedup_games games) = set games
         \<and> length (dedup_games games) = length games
         \<and> sorted (map gr_gamePk (dedup_games games))
         \<and> (dedup_games games = games \<longleftrightarrow> sorted (map gr_gamePk games))"
    if d: "distinct (map gr_gamePk games)"
  proof -
    have e: "dedup_games games = sort_values games_order games"
      using d by (rule dedup_games_unique)
    have "distinct (map gr_gamePk (dedup_games games))"
      unfolding e by (simp add: distinct_map_sort_values d)
    moreover have "sorted_wrt games_order (dedup_games games)"
      unfolding e by (rule sorted_wrt_sort_values [OF total_preorder_games_order])
    ultimately have "sorted (map gr_gamePk (dedup_games games))"
      using sorted_wrt_games_order_keys by blast
    then show ?thesis
      using dedup_games_unique_noop [OF d] by (simp add: e)
  qed
  from u have i: "distinct (map gr_gamePk games) \<longrightarrow>
         set (dedup_games games) = set games
         \<and> length (dedup_games games) = length games
         \<and> sorted (map gr_gamePk (dedup_games games))
         \<and> (dedup_games games = games \<longleftrightarrow> sorted (map gr_gamePk games))"
    by (rule impI)
  from g l r i show ?thesis by (intro conjI) assumption+
qed

theorem dedup_idempotent_witness:
  "distinct (map gr_gamePk [game_row 1 ''2025-04-01'' ''a'', game_row 2 ''2025-04-01'' ''b''])
   \<and> dedup_games [game_row 1 ''2025-04-01'' ''a'', game_row 2 ''2025-04-01'' ''b'']
       = [game_row 1 ''2025-04-01'' ''a'', game_row 2 ''2025-04-01'' ''b'']"
proof -
  have d: "distinct (map gr_gamePk [game_row 1 ''2025-04-01'' ''a'', game_row 2 ''2025-04-01'' ''b''])"
    by (simp add: game_row_def)
  have s: "sorted (map gr_gamePk [game_row 1 ''2025-04-01'' ''a'', game_row 2 ''2025-04-01'' ''b''])"
    by (simp add: game_row_def)
  note t = dedup_idempotent [of "[game_row 1 ''2025-04-01'' ''a'', game_row 2 ''2025-04-01'' ''b'']"]
  note u = mp [OF conjunct2 [OF conjunct2 [OF conjunct2 [OF t]]] d]
  from u s have "dedup_games [game_row 1 ''2025-04-01'' ''a'', game_row 2 ''2025-04-01'' ''b'']
       = [game_row 1 ''2025-04-01'' ''a'', game_row 2 ''2025-04-01'' ''b'']"
    by blast
  with d show ?thesis by (intro conjI) assumption+
qed

theorem dedup_unique_input_reordered:
  "distinct (map gr_gamePk [game_row 2 ''2025-04-01'' ''b'', game_row 1 ''2025-04-01'' ''a''])
   \<and> dedup_games [game_row 2 ''2025-04-01'' ''b'', game_row 1 ''2025-04-01'' ''a'']
       = [game_row 1 ''2025-04-01'' ''a'', game_row 2 ''2025-04-01'' ''b'']
   \<and> dedup_games [game_row 2 ''2025-04-01'' ''b'', game_row 1 ''2025-04-01'' ''a'']
       \<noteq> [game_row 2 ''2025-04-01'' ''b'', game_row 1 ''2025-04-01'' ''a'']"
  by (simp add: game_row_def dedup_games_def games_order_def then_by_def ascending_def
      descending_def sort_values_def drop_duplicates_def)

lemma add_scores_column:
  assumes "\<And>r bs ts. f (linescore_out r bs ts) = g r"
  shows "map f (add_scores df) = map g df"
  by (rule nth_equalityI) (simp_all add: add_scores_nth assms)

lemma process_linescores_runs:
  "map ls_runs (process_linescores raw) = map (\<lambda>r. fillna 0 (lr_runs r)) (dedup_linescores raw)"
proof -
  have "map ls_runs (process_linescores raw) = map ln_runs (linescores_chronological raw)"
    unfolding process_linescores_def by (rule add_scores_column) (simp add: linescore_out_def)
  then show ?thesis
    by (simp add: linescores_chronological_eq normalize_runs_def comp_def)
qed

lemma process_linescores_base:
  "map (\<lambda>r. (ls_gamePk r, ls_inning r, ls_half r, ls_battingteamid r)) (process_linescores raw)
   = map (\<lambda>r. (lr_gamePk r, lr_inning r, lr_half r, lr_battingteamid r)) (dedup_linescores raw)"
proof -
  have "map (\<lambda>r. (ls_gamePk r, ls_inning r, ls_half r, ls_battingteamid r)) (process_linescores raw)
        = map (\<lambda>r. (ln_gamePk r, ln_inning r, ln_half r, ln_battingteamid r))
            (linescores_chronological raw)"
    unfolding process_linescores_def by (rule add_scores_column) (simp add: linescore_out_def)
  then show ?thesis
    by (simp add: linescores_chronological_eq normalize_runs_def comp_def)
qed

lemma set_dedup_linescores: "set (dedup_linescores raw) \<subseteq> set raw"
  unfolding dedup_linescores_def using set_drop_duplicates [of lr_key] by fastforce

lemma process_linescores_columns_eq:
  assumes r: "''runs'' \<in> set cols"
    and n: "''cum_runs_batting'' \<notin> set cols" "''cum_runs_total'' \<notin> set cols"
      "''battingteam_score'' \<notin> set cols" "''total_score'' \<notin> set cols"
      "''battingteam_score_diff'' \<notin> set cols"
  shows "process_linescores_columns cols
    = filter (\<lambda>c. c \<noteq> ''source_folder_date'') cols
        @ [''battingteam_score'', ''battingteam_score_diff'']"
proof -
  have a: "assign_column ''battingteam_score_diff''
         (assign_column ''total_score''
           (assign_column ''battingteam_score''
             (assign_column ''cum_runs_total''
               (assign_column ''cum_runs_batting''
                 (assign_column ''runs'' cols)))))
      = cols @ [''cum_runs_batting'', ''cum_runs_total'', ''battingteam_score'', ''total_score'',
          ''battingteam_score_diff'']"
    using r n by (simp add: assign_column_def)
  have f: "filter (\<lambda>c. c \<notin> set [''cum_runs_batting'', ''cum_runs_total'', ''total_score'',
                ''source_folder_date'']) cols
         = filter (\<lambda>c. c \<noteq> ''source_folder_date'') cols"
    using n by (intro filter_cong) auto
  show ?thesis
    unfolding process_linescores_columns_def a drop_columns_def filter_append f by simp
qed

text \<open>
  C6, as the code has it. The normalisation replaces a missing \<^verbatim>\<open>runs\<close> by 0 and keeps
  every other value as it is: the \<^verbatim>\<open>runs\<close> of the result are those of the surviving
  input rows with the missing ones filled. They are non-negative when no input row holds a
  negative value.
\<close>

theorem runs_normalization:
  "map ls_runs (process_linescores raw) = map (\<lambda>r. fillna 0 (lr_runs r)) (dedup_linescores raw)
   \<and> ((\<forall>r\<in>set raw. \<forall>v. lr_runs r = Some v \<longrightarrow> 0 \<le> v)
        \<longrightarrow> (\<forall>out\<in>set (process_linescores raw). 0 \<le> ls_runs out))"
proof -
  have "\<forall>out\<in>set (process_linescores raw). 0 \<le> ls_runs out"
    if h: "\<forall>r\<in>set raw. \<forall>v. lr_runs r = Some v \<longrightarrow> 0 \<le> v"
  proof -
    have "0 \<le> fillna 0 (lr_runs r)" if "r \<in> set (dedup_linescores raw)" for r
    proof -
      from that have "r \<in> set raw" using set_dedup_linescores by blast
      with h show ?thesis by (cases "lr_runs r") (auto simp: fillna_def)
    qed
    then have "\<forall>v\<in>set (map (\<lambda>r. fillna 0 (lr_runs r)) (dedup_linescores raw)). 0 \<le> v"
      by auto
    then have "\<forall>v\<in>set (map ls_runs (process_linescores raw)). 0 \<le> v"
      by (simp only: process_linescores_runs)
    then show ?thesis by simp
  qed
  then have "(\<forall>r\<in>set raw. \<forall>v. lr_runs r = Some v \<longrightarrow> 0 \<le> v)
        \<longrightarrow> (\<forall>out\<in>set (process_linescores raw). 0 \<le> ls_runs out)"
    by (rule impI)
  with process_linescores_runs [of raw] show ?thesis by (intro conjI) assumption+
qed

theorem runs_normalization_witness:
  "map lr_runs scenario_linescores = [Some 2, Some 0, Some 1]
   \<and> 0 \<le> ls_runs (process_linescores scenario_linescores ! 0)
   \<and> 0 \<le> ls_runs (process_linescores scenario_linescores ! 1)
   \<and> 0 \<le> ls_runs (process_linescores scenario_linescores ! 2)"
proof -
  have r: "map lr_runs scenario_linescores = [Some 2, Some 0, Some 1]"
    by (simp add: scenario_linescores_def scenario_row_def)
  have h: "\<forall>r\<in>set scenario_linescores. \<forall>v. lr_runs r = Some v \<longrightarrow> 0 \<le> v"
    by (simp add: scenario_linescores_def scenario_row_def)
  note t = mp [OF conjunct2 [OF runs_normalization [of scenario_linescores]] h, rule_format]
  have l: "length (process_linescores scenario_linescores) = 3"
    by (simp add: scenario_linescores_def scenario_row_def linescore_defs)
  have "0 \<le> ls_runs (process_linescores scenario_linescores ! 0)"
    by (rule t) (simp add: l)
  moreover have "0 \<le> ls_runs (process_linescores scenario_linescores ! 1)"
    by (rule t) (simp add: l)
  moreover have "0 \<le> ls_runs (process_linescores scenario_linescores ! 2)"
    by (rule t) (simp add: l)
  ultimately show ?thesis using r by (intro conjI) assumption+
qed

theorem negative_runs_propagated:
  "map (\<lambda>r. (ls_inning r, ls_runs r, ls_battingteam_score r))
     (process_linescores [scenario_row 1 ''TOP'' 101 (- 1), scenario_row 2 ''TOP'' 101 0])
   = [(1, - 1, 0), (2, 0, - 1)]"
  by (simp add: scenario_row_def linescore_defs)

text \<open>
  C9. The rows that \<^verbatim>\<open>process_linescores\<close> returns are, in order, the rows that survive
  the deduplication, with \<^verbatim>\<open>gamePk\<close>, \<^verbatim>\<open>inning\<close>, \<^verbatim>\<open>half\<close> and \<^verbatim>\<open>battingteamid\<close>
  unchanged and \<^verbatim>\<open>runs\<close> normalised; every surviving row is a row of the input. The
  columns of the returned frame are the columns of the input without
  \<^verbatim>\<open>source_folder_date\<close>, followed by \<^verbatim>\<open>battingteam_score\<close> and
  \<^verbatim>\<open>battingteam_score_diff\<close>: none of \<^verbatim>\<open>cum_runs_batting\<close>, \<^verbatim>\<open>cum_runs_total\<close> and
  \<^verbatim>\<open>total_score\<close> is among them.
\<close>

theorem linescore_output_frame:
  "map (\<lambda>r. (ls_gamePk r, ls_inning r, ls_half r, ls_battingteamid r)) (process_linescores raw)
     = map (\<lambda>r. (lr_gamePk r, lr_inning r, lr_half r, lr_battingteamid r)) (dedup_linescores raw)
   \<and> map ls_runs (process_linescores raw)
     = map (\<lambda>r. fillna 0 (lr_runs r)) (dedup_linescores raw)
   \<and> set (dedup_linescores raw) \<subseteq> set raw
   \<and> (''runs'' \<in> set cols
       \<and> ''cum_runs_batting'' \<notin> set cols \<and> ''cum_runs_total'' \<notin> set cols
       \<and> ''battingteam_score'' \<notin> set cols \<and> ''total_score'' \<notin> set cols
       \<and> ''battingteam_score_diff'' \<notin> set cols
       \<longrightarrow> process_linescores_columns cols
           = filter (\<lambda>c. c \<noteq> ''source_folder_date'') cols
               @ [''battingteam_score'', ''battingteam_score_diff''])"
  using process_linescores_base [of raw] process_linescores_runs [of raw]
    set_dedup_linescores [of raw] process_linescores_columns_eq [of cols]
  by (intro conjI impI) (assumption | elim conjE)+

theorem linescore_output_frame_witness:
  "''runs'' \<in> set linescore_raw_columns
   \<and> process_linescores_columns linescore_raw_columns
       = [''gamePk'', ''inning'', ''half'', ''battingteamid'', ''runs'', ''battingteam_score'',
          ''battingteam_score_diff'']"
proof -
  have h: "''runs'' \<in> set linescore_raw_columns
       \<and> ''cum_runs_batting'' \<notin> set linescore_raw_columns
       \<and> ''cum_runs_total'' \<notin> set linescore_raw_columns
       \<and> ''battingteam_score'' \<notin> set linescore_raw_columns
       \<and> ''total_score'' \<notin> set linescore_raw_columns
       \<and> ''battingteam_score_diff'' \<notin> set linescore_raw_columns"
    by (simp add: linescore_raw_columns_def)
  note t = linescore_output_frame [of "[]" linescore_raw_columns]
  note u = mp [OF conjunct2 [OF conjunct2 [OF conjunct2 [OF t]]] h]
  from u have "process_linescores_columns linescore_raw_columns
       = [''gamePk'', ''inning'', ''half'', ''battingteamid'', ''runs'', ''battingteam_score'',
          ''battingteam_score_diff'']"
    by (simp add: linescore_raw_columns_def)
  with h show ?thesis by (intro conjI) (simp_all only:)
qed

end
